theory Spec2Isabelle
  imports Main
begin

section \<open>The program representation\<close>

text \<open>
  The pass of \<^verbatim>\<open>p3.cpp\<close> works on the objects of the LLVM library: values,
  instructions, basic blocks, loops and a dominator tree. A pointer to an object is
  modelled by the object's identity, a natural number; two pointers are equal exactly
  when the numbers are.

  A value is a constant (a global variable, a constant expression), a function argument
  or the result of an instruction.
\<close>

datatype val = Const nat | Arg nat | InstV nat

text \<open>
  An instruction has an opcode and operands. The pass only tells loads, stores and calls
  apart (\<^verbatim>\<open>getOpcode()\<close>), asks whether an address is an alloca
  (\<^verbatim>\<open>isa<AllocaInst>\<close>) and needs the terminator of the preheader. A load carries
  its volatile flag and its address (operand 0); a store carries its flag, the stored
  value (operand 0) and the destination address (operand 1). \<open>Term\<close> stands for the
  terminators (branch, switch, return, invoke), \<open>Other\<close> for every opcode the pass
  does not single out; the array size of an alloca, which the pass never reads, is left
  out.
\<close>

datatype kind =
    Load bool val
  | Store bool val val
  | Call "val list"
  | Alloca
  | Term "val list"
  | Other "val list"

datatype instruction = Instr (ident: nat) (kind: kind)

fun operands :: "kind \<Rightarrow> val list" where
  "operands (Load vol a) = [a]"
| "operands (Store vol v p) = [v, p]"
| "operands (Call xs) = xs"
| "operands Alloca = []"
| "operands (Term xs) = xs"
| "operands (Other xs) = xs"

fun isVolatile :: "instruction \<Rightarrow> bool" where
  "isVolatile (Instr k (Load vol a)) = vol"
| "isVolatile (Instr k (Store vol v p)) = vol"
| "isVolatile (Instr k other) = False"

definition getOperand :: "instruction \<Rightarrow> nat \<Rightarrow> val option" where
  "getOperand I n =
     (if n < length (operands (kind I)) then Some (operands (kind I) ! n) else None)"

definition isLoad :: "instruction \<Rightarrow> bool" where
  "isLoad I = (case kind I of Load vol a \<Rightarrow> True | _ \<Rightarrow> False)"

definition isStore :: "instruction \<Rightarrow> bool" where
  "isStore I = (case kind I of Store vol v p \<Rightarrow> True | _ \<Rightarrow> False)"

definition isCall :: "instruction \<Rightarrow> bool" where
  "isCall I = (case kind I of Call xs \<Rightarrow> True | _ \<Rightarrow> False)"

definition isTerminator :: "instruction \<Rightarrow> bool" where
  "isTerminator I = (case kind I of Term xs \<Rightarrow> True | _ \<Rightarrow> False)"

text \<open>
  The body of a function: its basic blocks in order, each the block's identity and the
  ordered list of its instructions. A block that is looked up and not there has no
  instructions.
\<close>

type_synonym func_body = "(nat \<times> instruction list) list"

definition blockInsts :: "func_body \<Rightarrow> nat \<Rightarrow> instruction list" where
  "blockInsts B b = (case map_of B b of None \<Rightarrow> [] | Some xs \<Rightarrow> xs)"

definition allInsts :: "func_body \<Rightarrow> instruction list" where
  "allInsts B = concat (map snd B)"

text \<open>\<^verbatim>\<open>Inst->getParent()\<close>: the block that holds the instruction, null when none does.\<close>

definition getParent :: "func_body \<Rightarrow> nat \<Rightarrow> nat option" where
  "getParent B k =
     map_option fst (find (\<lambda>blk. list_ex (\<lambda>i. ident i = k) (snd blk)) B)"

text \<open>The instruction object a value of kind \<open>InstV\<close> points to.\<close>

definition findInst :: "func_body \<Rightarrow> nat \<Rightarrow> instruction option" where
  "findInst B k = find (\<lambda>i. ident i = k) (allInsts B)"

definition isaConstant :: "val \<Rightarrow> bool" where
  "isaConstant v = (case v of Const c \<Rightarrow> True | _ \<Rightarrow> False)"

definition isaAllocaInst :: "func_body \<Rightarrow> val \<Rightarrow> bool" where
  "isaAllocaInst B v =
     (case v of
        InstV k \<Rightarrow> (case findInst B k of Some i \<Rightarrow> kind i = Alloca | None \<Rightarrow> False)
      | _ \<Rightarrow> False)"

text \<open>
  \<^verbatim>\<open>cast<Instruction>(v)\<close> is defined on instructions only: on any other value the
  library asserts (or, compiled without assertions, reinterprets the object). The model
  gives \<open>None\<close> there and the caller turns it into an error.
\<close>

definition castInstruction :: "val \<Rightarrow> nat option" where
  "castInstruction v = (case v of InstV k \<Rightarrow> Some k | _ \<Rightarrow> None)"

text \<open>
  A loop as \<^verbatim>\<open>LoopInfo\<close> reports it: its identity (the address of the
  \<^verbatim>\<open>Loop\<close> object), \<^verbatim>\<open>blocks()\<close> (all member blocks, those of nested loops
  included), \<^verbatim>\<open>getSubLoops()\<close> (the loops nested directly inside),
  \<^verbatim>\<open>getLoopPreheader()\<close> (null when the loop has none) and the member blocks for which
  \<^verbatim>\<open>isLoopExiting\<close> holds. The control-flow graph these are computed from is not
  changed by the pass.
\<close>

datatype loop =
  Loop (lid: nat) (getBlocks: "nat list") (getSubLoops: "loop list")
       (getLoopPreheader: "nat option") (exitingBlocks: "nat list")

definition isLoopExiting :: "loop \<Rightarrow> nat \<Rightarrow> bool" where
  "isLoopExiting L bb = (bb \<in> set (exitingBlocks L))"

text \<open>\<^verbatim>\<open>loop->contains(block)\<close>; a null block is in no loop.\<close>

definition contains :: "loop \<Rightarrow> nat option \<Rightarrow> bool" where
  "contains L p = (case p of None \<Rightarrow> False | Some b \<Rightarrow> b \<in> set (getBlocks L))"

text \<open>
  \<^verbatim>\<open>instrIsInLoop\<close> (lines 190-203): the loop contains the instruction's block, or one
  of the nested loops does, recursively.
\<close>

fun instrIsInLoop :: "func_body \<Rightarrow> loop \<Rightarrow> nat \<Rightarrow> bool" where
  "instrIsInLoop B (Loop n bs subs ph ex) k =
     (if contains (Loop n bs subs ph ex) (getParent B k) then True
      else list_ex (\<lambda>subLoop. instrIsInLoop B subLoop k) subs)"

text \<open>
  The dominator tree is computed by the library before the pass runs on a function and
  is only queried: \<open>DT a b\<close> is \<^verbatim>\<open>DT->dominates(a, b)\<close> on blocks. A null block
  dominates nothing.
\<close>

type_synonym domtree = "nat \<Rightarrow> nat \<Rightarrow> bool"

definition dominates :: "domtree \<Rightarrow> nat option \<Rightarrow> nat \<Rightarrow> bool" where
  "dominates DT p bb = (case p of None \<Rightarrow> False | Some a \<Rightarrow> DT a bb)"

section \<open>The state of the pass\<close>

text \<open>
  Besides the function body the pass owns: the global flag \<^verbatim>\<open>hasAStore\<close> (line
  205), the two function-local statics \<^verbatim>\<open>prev\<close> (of \<^verbatim>\<open>canMoveOutOfLoop\<close>) and
  \<^verbatim>\<open>prevLoop\<close> (of \<^verbatim>\<open>mLICM\<close>), both null at first, and the statistics counters
  (lines 180-187). A counter only ever grows by one per loop or per hoisted instruction,
  so it is a natural number here. The function body is passed beside this record, so
  that the type of an operation shows whether it can change the body.
\<close>

record state =
  hasAStore :: bool
  prev :: "nat option"
  prevLoop :: "nat option"
  NumLoops :: nat
  NumLoopsWithCall :: nat
  NumLoopsNoLoads :: nat
  NumLoopsNoStores :: nat
  LICMBasic :: nat
  LICMLoadHoist :: nat
  LICMNoPreheader :: nat

text \<open>
  What the C++ leaves undefined is an error value of the model: a member call through a
  null preheader, an insertion before a null terminator, a \<^verbatim>\<open>cast<Instruction>\<close> of
  a value that is no instruction, \<^verbatim>\<open>getOperand(0)\<close> of an instruction without
  operands.
\<close>

datatype error = NullPreheader | NullTerminator | BadCast | NoOperand

section \<open>The legality check\<close>

text \<open>
  Every scan of \<^verbatim>\<open>canMoveOutOfLoop\<close> runs over the blocks of \<^verbatim>\<open>L->blocks()\<close> in
  order and over each block's instructions in order (an empty block contributes
  nothing): over \<open>loopInsts\<close>.
\<close>

definition loopInsts :: "func_body \<Rightarrow> loop \<Rightarrow> instruction list" where
  "loopInsts B L = concat (map (blockInsts B) (getBlocks L))"

text \<open>
  The scan for a conflicting store (lines 386-401), for a constant or alloca address.
  The flag is \<^verbatim>\<open>hasAStore\<close>; the first component of the result says that the scan
  left through \<^verbatim>\<open>return false\<close>.
\<close>

fun scanStores :: "func_body \<Rightarrow> val \<Rightarrow> instruction list \<Rightarrow> bool \<Rightarrow> bool \<times> bool" where
  "scanStores B addr [] h = (False, h)"
| "scanStores B addr (Inst # rest) h =
     (case kind Inst of
        Store vol v p \<Rightarrow>
          (let h1 = (if \<not> isaConstant p \<and> \<not> isaAllocaInst B p then True else h)
           in if p = addr then (True, True) else scanStores B addr rest h1)
      | _ \<Rightarrow> scanStores B addr rest h)"

text \<open>
  \<^verbatim>\<open>canMoveOutOfLoop\<close> (lines 357-439). It reads the body and writes only the flag,
  the static \<^verbatim>\<open>prev\<close> and the counter \<^verbatim>\<open>NumLoopsWithCall\<close>.
\<close>

definition canMoveOutOfLoop ::
  "loop \<Rightarrow> instruction \<Rightarrow> domtree \<Rightarrow> func_body \<Rightarrow> state \<Rightarrow> error + (bool \<times> state)" where
  "canMoveOutOfLoop L I DT B s =
     (if isVolatile I then Inr (False, s)
      else if list_ex isCall (loopInsts B L) then
        Inr (False,
          if prev s = None \<or> prev s \<noteq> Some (lid L)
          then s\<lparr>prev := Some (lid L), NumLoopsWithCall := NumLoopsWithCall s + 1\<rparr>
          else s)
      else
        (case getOperand I 0 of
           None \<Rightarrow> Inl NoOperand
         | Some addr \<Rightarrow>
             if isaConstant addr \<or> isaAllocaInst B addr then
               (case scanStores B addr (loopInsts B L) (hasAStore s) of
                  (True, h) \<Rightarrow> Inr (False, s\<lparr>hasAStore := h\<rparr>)
                | (False, h) \<Rightarrow>
                    if isaAllocaInst B addr then
                      (case castInstruction addr of
                         None \<Rightarrow> Inl BadCast
                       | Some k \<Rightarrow>
                           if instrIsInLoop B L k then Inr (False, s\<lparr>hasAStore := h\<rparr>)
                           else Inr (True, s\<lparr>hasAStore := h\<rparr>))
                    else Inr (True, s\<lparr>hasAStore := h\<rparr>))
             else if list_ex isStore (loopInsts B L) then
               Inr (False, s\<lparr>hasAStore := True\<rparr>)
             else
               (case castInstruction addr of
                  None \<Rightarrow> Inl BadCast
                | Some k \<Rightarrow>
                    if instrIsInLoop B L k then Inr (False, s)
                    else
                      Inr (list_all
                             (\<lambda>bb. if isLoopExiting L bb
                                   then dominates DT (getParent B (ident I)) bb
                                   else True)
                             (getBlocks L), s))))"

section \<open>The hoisting engine\<close>

text \<open>
  The library operations \<^verbatim>\<open>mLICM\<close> uses. \<^verbatim>\<open>clone()\<close> makes a new instruction
  object with the opcode and operands of the original; its identity is one no
  instruction of the body has.
\<close>

definition freshId :: "func_body \<Rightarrow> nat" where
  "freshId B = Suc (fold max (map ident (allInsts B)) 0)"

definition clone :: "func_body \<Rightarrow> instruction \<Rightarrow> instruction" where
  "clone B Inst = Instr (freshId B) (kind Inst)"

text \<open>
  \<^verbatim>\<open>getTerminator()\<close>: the last instruction of the block when it is a terminator,
  null otherwise (and for an empty block).
\<close>

definition getTerminator :: "func_body \<Rightarrow> nat \<Rightarrow> nat option" where
  "getTerminator B b =
     (case blockInsts B b of
        [] \<Rightarrow> None
      | x # xs \<Rightarrow> if isTerminator (last (x # xs)) then Some (ident (last (x # xs))) else None)"

text \<open>\<^verbatim>\<open>c->insertBefore(t)\<close>: \<open>c\<close> goes into the block of \<open>t\<close>, right before \<open>t\<close>.\<close>

fun insertBeforeIn :: "nat \<Rightarrow> instruction \<Rightarrow> instruction list \<Rightarrow> instruction list" where
  "insertBeforeIn t c [] = []"
| "insertBeforeIn t c (i # rest) =
     (if ident i = t then c # i # rest else i # insertBeforeIn t c rest)"

definition insertBefore :: "func_body \<Rightarrow> instruction \<Rightarrow> nat \<Rightarrow> func_body" where
  "insertBefore B c t = map (\<lambda>blk. (fst blk, insertBeforeIn t c (snd blk))) B"

text \<open>\<^verbatim>\<open>old->replaceAllUsesWith(new)\<close>: every operand that is \<open>old\<close> becomes \<open>new\<close>.\<close>

definition replaceVal :: "nat \<Rightarrow> nat \<Rightarrow> val \<Rightarrow> val" where
  "replaceVal old new v = (if v = InstV old then InstV new else v)"

fun replaceInKind :: "nat \<Rightarrow> nat \<Rightarrow> kind \<Rightarrow> kind" where
  "replaceInKind old new (Load vol a) = Load vol (replaceVal old new a)"
| "replaceInKind old new (Store vol v p) = Store vol (replaceVal old new v) (replaceVal old new p)"
| "replaceInKind old new (Call xs) = Call (map (replaceVal old new) xs)"
| "replaceInKind old new Alloca = Alloca"
| "replaceInKind old new (Term xs) = Term (map (replaceVal old new) xs)"
| "replaceInKind old new (Other xs) = Other (map (replaceVal old new) xs)"

definition redirectUses :: "nat \<Rightarrow> nat \<Rightarrow> instruction \<Rightarrow> instruction" where
  "redirectUses old new i = Instr (ident i) (replaceInKind old new (kind i))"

definition replaceAllUsesWith :: "func_body \<Rightarrow> nat \<Rightarrow> nat \<Rightarrow> func_body" where
  "replaceAllUsesWith B old new =
     map (\<lambda>blk. (fst blk, map (redirectUses old new) (snd blk))) B"

text \<open>\<^verbatim>\<open>Inst->eraseFromParent()\<close>: the instruction leaves its block and is deleted.\<close>

definition eraseFromParent :: "func_body \<Rightarrow> nat \<Rightarrow> func_body" where
  "eraseFromParent B k = map (\<lambda>blk. (fst blk, filter (\<lambda>i. ident i \<noteq> k) (snd blk))) B"

text \<open>The use list of an instruction: the instructions that have it as an operand.\<close>

definition users :: "func_body \<Rightarrow> nat \<Rightarrow> instruction list" where
  "users B k = filter (\<lambda>u. InstV k \<in> set (operands (kind u))) (allInsts B)"

text \<open>
  The loop over the users of \<^verbatim>\<open>Inst\<close> (lines 271-277 and 288-294): is the block of some
  user a member of the loop.
\<close>

definition userInLoop :: "func_body \<Rightarrow> loop \<Rightarrow> nat \<Rightarrow> bool" where
  "userInLoop B li k = list_ex (\<lambda>user. contains li (getParent B (ident user))) (users B k)"

text \<open>
  \<^verbatim>\<open>Loop::makeLoopInvariant\<close> belongs to the library, not to the repository: it is a
  parameter of the model. Given the loop, the instruction and the body it returns its
  result, the flag \<^verbatim>\<open>changed\<close> and the body it leaves.
\<close>

type_synonym hoistPrim = "loop \<Rightarrow> nat \<Rightarrow> func_body \<Rightarrow> bool \<times> bool \<times> func_body"

text \<open>
  Lines 263-277, the hoist of a legal load, in the order of the source: clone, insert
  before the terminator of the preheader, redirect the uses, erase, and only then look
  for a user inside the loop. The use list inspected is the one the redirection and the
  erasure have left.
\<close>

definition hoistLoad :: "loop \<Rightarrow> instruction \<Rightarrow> func_body \<Rightarrow> error + (bool \<times> func_body)" where
  "hoistLoad li Inst B =
     (let mClone = clone B Inst in
      case getLoopPreheader li of
        None \<Rightarrow> Inl NullPreheader
      | Some ph \<Rightarrow>
          (case getTerminator B ph of
             None \<Rightarrow> Inl NullTerminator
           | Some t \<Rightarrow>
               (let B1 = insertBefore B mClone t;
                    B2 = replaceAllUsesWith B1 (ident Inst) (ident mClone);
                    B3 = eraseFromParent B2 (ident Inst)
                in Inr (userInLoop B3 li (ident Inst), B3))))"

text \<open>
  The body of the instruction loop (lines 258-297) for one instruction. The accumulator
  holds \<^verbatim>\<open>mRetVal\<close>, \<^verbatim>\<open>isOpt\<close>, the body and the state.
\<close>

definition mLICM_inst ::
  "hoistPrim \<Rightarrow> loop \<Rightarrow> domtree \<Rightarrow> instruction \<Rightarrow> bool \<times> bool \<times> func_body \<times> state
     \<Rightarrow> error + (bool \<times> bool \<times> func_body \<times> state)" where
  "mLICM_inst prim li mDT Inst acc =
     (case acc of (mRetVal, isOpt, B, s) \<Rightarrow>
        if isLoad Inst then
          (case canMoveOutOfLoop li Inst mDT B s of
             Inl e \<Rightarrow> Inl e
           | Inr (ok, s1) \<Rightarrow>
               if ok then
                 (case hoistLoad li Inst B of
                    Inl e \<Rightarrow> Inl e
                  | Inr (u, B1) \<Rightarrow>
                      Inr (mRetVal \<or> u, True, B1, s1\<lparr>LICMLoadHoist := LICMLoadHoist s1 + 1\<rparr>))
               else Inr (mRetVal, isOpt, B, s1))
        else if isStore Inst then Inr (mRetVal, isOpt, B, s)
        else
          (case prim li (ident Inst) B of (ok, changed, B1) \<Rightarrow>
             if ok \<and> changed then
               Inr (mRetVal \<or> userInLoop B1 li (ident Inst), isOpt, B1,
                    s\<lparr>LICMBasic := LICMBasic s + 1\<rparr>)
             else Inr (mRetVal, isOpt, B1, s)))"

text \<open>
  The instruction loop of one block. The iterator is advanced before the instruction is
  handled, so the loop visits the instructions the block held when its scan began (the
  list of their identities), and reads each one as the body has it by then: a
  redirection may have changed its operands. This is the iteration of the source as long
  as nothing is inserted into or taken out of the block behind the iterator: the
  preheader is never a member of the loop, and the library primitive moves an
  instruction only together with operands that precede it.
\<close>

fun mLICM_insts ::
  "hoistPrim \<Rightarrow> loop \<Rightarrow> domtree \<Rightarrow> nat list \<Rightarrow> bool \<times> bool \<times> func_body \<times> state
     \<Rightarrow> error + (bool \<times> bool \<times> func_body \<times> state)" where
  "mLICM_insts prim li mDT [] acc = Inr acc"
| "mLICM_insts prim li mDT (k # ks) acc =
     (case findInst (fst (snd (snd acc))) k of
        None \<Rightarrow> mLICM_insts prim li mDT ks acc
      | Some Inst \<Rightarrow>
          (case mLICM_inst prim li mDT Inst acc of
             Inl e \<Rightarrow> Inl e
           | Inr acc1 \<Rightarrow> mLICM_insts prim li mDT ks acc1))"

text \<open>The block loop (lines 252-299).\<close>

fun mLICM_blocks ::
  "hoistPrim \<Rightarrow> loop \<Rightarrow> domtree \<Rightarrow> nat list \<Rightarrow> bool \<times> bool \<times> func_body \<times> state
     \<Rightarrow> error + (bool \<times> bool \<times> func_body \<times> state)" where
  "mLICM_blocks prim li mDT [] acc = Inr acc"
| "mLICM_blocks prim li mDT (bb # bbs) acc =
     (case mLICM_insts prim li mDT (map ident (blockInsts (fst (snd (snd acc))) bb)) acc of
        Inl e \<Rightarrow> Inl e
      | Inr acc1 \<Rightarrow> mLICM_blocks prim li mDT bbs acc1)"

text \<open>
  \<^verbatim>\<open>mLICM\<close> (lines 244-309): reset the flag, scan, then the statistics of lines
  300-307, and return \<^verbatim>\<open>mRetVal\<close>.
\<close>

definition mLICM ::
  "hoistPrim \<Rightarrow> loop \<Rightarrow> domtree \<Rightarrow> func_body \<times> state \<Rightarrow> error + (bool \<times> func_body \<times> state)" where
  "mLICM prim li mDT st =
     (case st of (B, s) \<Rightarrow>
        (case mLICM_blocks prim li mDT (getBlocks li) (False, False, B, s\<lparr>hasAStore := False\<rparr>) of
           Inl e \<Rightarrow> Inl e
         | Inr (mRetVal, isOpt, B1, s1) \<Rightarrow>
             Inr (mRetVal, B1,
                  if prevLoop s1 = None \<or> prevLoop s1 \<noteq> Some (lid li) then
                    (if isOpt \<and> \<not> hasAStore s1
                     then s1\<lparr>prevLoop := Some (lid li), NumLoopsNoStores := NumLoopsNoStores s1 + 1\<rparr>
                     else s1\<lparr>prevLoop := Some (lid li)\<rparr>)
                  else s1)))"

section \<open>The pass driver\<close>

text \<open>
  \<^verbatim>\<open>while(mLICM(li, &mDT)) { mCntr++; }\<close> (lines 342-344 and 348-350); the counter
  \<^verbatim>\<open>mCntr\<close> is never read. The loop ends when a pass returns false, or in an error;
  a run that never ends is \<open>None\<close>.
\<close>

partial_function (option) whileLICM ::
  "hoistPrim \<Rightarrow> loop \<Rightarrow> domtree \<Rightarrow> func_body \<times> state \<Rightarrow> (error + func_body \<times> state) option" where
  "whileLICM prim li mDT st =
     (case mLICM prim li mDT st of
        Inl e \<Rightarrow> Some (Inl e)
      | Inr r \<Rightarrow> if fst r then whileLICM prim li mDT (snd r) else Some (Inr (snd r)))"

text \<open>The loop over \<^verbatim>\<open>li->getSubLoops()\<close> (lines 339-345).\<close>

fun subLoopsLICM ::
  "hoistPrim \<Rightarrow> domtree \<Rightarrow> loop list \<Rightarrow> func_body \<times> state \<Rightarrow> (error + func_body \<times> state) option" where
  "subLoopsLICM prim mDT [] st = Some (Inr st)"
| "subLoopsLICM prim mDT (subli # rest) st =
     (case whileLICM prim subli mDT (fst st, (snd st)\<lparr>NumLoops := NumLoops (snd st) + 1\<rparr>) of
        None \<Rightarrow> None
      | Some (Inl e) \<Rightarrow> Some (Inl e)
      | Some (Inr st1) \<Rightarrow> subLoopsLICM prim mDT rest st1)"

text \<open>The body of the loop over the top-level loops of a function (lines 328-350).\<close>

definition LICM_loop ::
  "hoistPrim \<Rightarrow> domtree \<Rightarrow> loop \<Rightarrow> func_body \<times> state \<Rightarrow> (error + func_body \<times> state) option" where
  "LICM_loop prim mDT li st =
     (case getLoopPreheader li of
        None \<Rightarrow> Some (Inr (fst st, (snd st)\<lparr>LICMNoPreheader := LICMNoPreheader (snd st) + 1\<rparr>))
      | Some Preheader \<Rightarrow>
          (case subLoopsLICM prim mDT (getSubLoops li) st of
             None \<Rightarrow> None
           | Some (Inl e) \<Rightarrow> Some (Inl e)
           | Some (Inr st1) \<Rightarrow>
               whileLICM prim li mDT (fst st1, (snd st1)\<lparr>NumLoops := NumLoops (snd st1) + 1\<rparr>)))"

fun LICM_loops ::
  "hoistPrim \<Rightarrow> domtree \<Rightarrow> loop list \<Rightarrow> func_body \<times> state \<Rightarrow> (error + func_body \<times> state) option" where
  "LICM_loops prim mDT [] st = Some (Inr st)"
| "LICM_loops prim mDT (li # rest) st =
     (case LICM_loop prim mDT li st of
        None \<Rightarrow> None
      | Some (Inl e) \<Rightarrow> Some (Inl e)
      | Some (Inr st1) \<Rightarrow> LICM_loops prim mDT rest st1)"

text \<open>
  A function of the module: its body, and what the library computes from it at lines
  318-323 (and again at lines 214-219), the top-level loops of its loop forest and its
  dominator tree. Both depend on the control-flow graph only, which no hoist changes.
\<close>

record func =
  fblocks :: func_body
  floops :: "loop list"
  fdom :: domtree

text \<open>
  \<^verbatim>\<open>numStats\<close> (lines 207-241): for each top-level loop of each function with a body,
  look for a load in the blocks of the loop.
\<close>

definition loopContainsLoad :: "func_body \<Rightarrow> loop \<Rightarrow> bool" where
  "loopContainsLoad B li = list_ex (\<lambda>bb. list_ex isLoad (blockInsts B bb)) (getBlocks li)"

fun numStats_loops :: "func_body \<Rightarrow> loop list \<Rightarrow> state \<Rightarrow> state" where
  "numStats_loops B [] s = s"
| "numStats_loops B (li # rest) s =
     numStats_loops B rest
       (if \<not> loopContainsLoad B li then s\<lparr>NumLoopsNoLoads := NumLoopsNoLoads s + 1\<rparr> else s)"

fun numStats :: "func list \<Rightarrow> state \<Rightarrow> state" where
  "numStats [] s = s"
| "numStats (f # fs) s =
     (if fblocks f = [] then numStats fs s
      else numStats fs (numStats_loops (fblocks f) (floops f) s))"

text \<open>\<^verbatim>\<open>LoopInvariantCodeMotion\<close> (lines 311-354).\<close>

fun LICM_functions ::
  "hoistPrim \<Rightarrow> func list \<Rightarrow> state \<Rightarrow> (error + func list \<times> state) option" where
  "LICM_functions prim [] s = Some (Inr ([], s))"
| "LICM_functions prim (f # fs) s =
     (if fblocks f = [] then
        (case LICM_functions prim fs s of
           None \<Rightarrow> None
         | Some (Inl e) \<Rightarrow> Some (Inl e)
         | Some (Inr (fs1, s1)) \<Rightarrow> Some (Inr (f # fs1, s1)))
      else
        (case LICM_loops prim (fdom f) (floops f) (fblocks f, s) of
           None \<Rightarrow> None
         | Some (Inl e) \<Rightarrow> Some (Inl e)
         | Some (Inr (B1, s1)) \<Rightarrow>
             (case LICM_functions prim fs s1 of
                None \<Rightarrow> None
              | Some (Inl e) \<Rightarrow> Some (Inl e)
              | Some (Inr (fs1, s2)) \<Rightarrow> Some (Inr (f\<lparr>fblocks := B1\<rparr> # fs1, s2)))))"

definition LoopInvariantCodeMotion ::
  "hoistPrim \<Rightarrow> func list \<Rightarrow> state \<Rightarrow> (error + func list \<times> state) option" where
  "LoopInvariantCodeMotion prim M s =
     (case LICM_functions prim M s of
        None \<Rightarrow> None
      | Some (Inl e) \<Rightarrow> Some (Inl e)
      | Some (Inr (M1, s1)) \<Rightarrow> Some (Inr (M1, numStats M1 s1)))"

declare whileLICM.simps [code]

section \<open>Notions used in the statements\<close>

text \<open>
  The loop nest below a loop: the loop itself and all loops nested in it, at any depth.
\<close>

fun loopNest :: "loop \<Rightarrow> loop list" where
  "loopNest (Loop n bs subs ph ex) = Loop n bs subs ph ex # concat (map loopNest subs)"

text \<open>
  The invariant of the loop forest the library guarantees: the blocks of a nested loop
  are blocks of the loop around it.
\<close>

fun wfLoop :: "loop \<Rightarrow> bool" where
  "wfLoop (Loop n bs subs ph ex) =
     list_all (\<lambda>c. set (getBlocks c) \<subseteq> set bs \<and> wfLoop c) subs"

text \<open>
  How the two guarded statistics may move between two states of one scan of a loop:
  \<^verbatim>\<open>NumLoopsNoStores\<close> and \<^verbatim>\<open>prevLoop\<close> stay, and \<^verbatim>\<open>NumLoopsWithCall\<close> either
  stays together with \<^verbatim>\<open>prev\<close> or grows by one while \<^verbatim>\<open>prev\<close> becomes this loop.
\<close>

definition statsStep :: "loop \<Rightarrow> state \<Rightarrow> state \<Rightarrow> bool" where
  "statsStep L s t =
     (NumLoopsNoStores t = NumLoopsNoStores s \<and> prevLoop t = prevLoop s \<and>
      ((NumLoopsWithCall t = NumLoopsWithCall s \<and> prev t = prev s) \<or>
       (NumLoopsWithCall t = NumLoopsWithCall s + 1 \<and> prev t = Some (lid L) \<and>
        prev s \<noteq> Some (lid L))))"

text \<open>
  A primitive that never reports a change for the instructions of a loop (as the library
  primitive does when the loop holds nothing it may move).
\<close>

definition neverChanges :: "hoistPrim \<Rightarrow> loop \<Rightarrow> bool" where
  "neverChanges prim li = (\<forall>k B. \<not> (fst (prim li k B) \<and> fst (snd (prim li k B))))"

text \<open>
  The run of the children of a root loop, as a chain of states: \<open>ss\<close> holds the state
  before the first child and the state after each child, and the
  \<^verbatim>\<open>while(mLICM(subli, &mDT))\<close> of each child, after \<^verbatim>\<open>NumLoops++\<close>, leads from one
  to the next.
\<close>

fun childRuns ::
  "hoistPrim \<Rightarrow> domtree \<Rightarrow> loop list \<Rightarrow> (func_body \<times> state) list \<Rightarrow> bool" where
  "childRuns prim mDT [] ss = (length ss = 1)"
| "childRuns prim mDT (subli # rest) ss =
     (case ss of
        st # st1 # ss1 \<Rightarrow>
          whileLICM prim subli mDT (fst st, (snd st)\<lparr>NumLoops := NumLoops (snd st) + 1\<rparr>)
            = Some (Inr st1) \<and>
          childRuns prim mDT rest (st1 # ss1)
      | _ \<Rightarrow> False)"


text \<open>
  Notions for the run of a nest on the loads of one address. \<open>loadOf a\<close>: a load, not
  volatile, of the address \<open>a\<close>. \<open>storesTo a\<close>: a store with destination \<open>a\<close>.
  \<open>loadsThroughArg\<close>: a load whose address is a function argument, on which the
  legality check has no result. \<open>isOther\<close>: an instruction of an opcode the pass does
  not single out, the only kind the library primitive moves.
\<close>

definition loadOf :: "val \<Rightarrow> instruction \<Rightarrow> bool" where
  "loadOf a i = (kind i = Load False a)"

definition storesTo :: "val \<Rightarrow> instruction \<Rightarrow> bool" where
  "storesTo a i = (case kind i of Store vol v p \<Rightarrow> p = a | _ \<Rightarrow> False)"

definition loadsThroughArg :: "instruction \<Rightarrow> bool" where
  "loadsThroughArg i =
     (case kind i of Load vol a \<Rightarrow> (case a of Arg n \<Rightarrow> True | _ \<Rightarrow> False) | _ \<Rightarrow> False)"











section \<open>The library primitive and concrete inputs\<close>

text \<open>
  Modelled from the spec: the Invariant-Operand Hoist Primitive
  (\<^verbatim>\<open>Loop::makeLoopInvariant\<close> of the library, which the repository only calls). Given
  a non-memory instruction and a loop it hoists the instruction to the preheader if
  every operand is defined outside the loop, and reports whether it changed anything. An
  instruction outside the loop is invariant already; loads, stores, calls, allocas and
  terminators are never moved. It instantiates the parameter \<open>prim\<close> where a concrete
  run is evaluated; but for \<open>B11\<close> the bodies of these runs hold loads, stores, calls,
  allocas and terminators only, so the primitive is asked about instructions it never
  moves.
\<close>

definition hoistIfInvariant :: hoistPrim where
  "hoistIfInvariant li k B =
     (case findInst B k of
        None \<Rightarrow> (False, False, B)
      | Some Inst \<Rightarrow>
          if \<not> contains li (getParent B k) then (True, False, B)
          else
            (case kind Inst of
               Other xs \<Rightarrow>
                 if list_ex (\<lambda>v. case castInstruction v of
                                   None \<Rightarrow> False
                                 | Some j \<Rightarrow> contains li (getParent B j)) xs
                 then (False, False, B)
                 else
                   (case getLoopPreheader li of
                      None \<Rightarrow> (False, False, B)
                    | Some ph \<Rightarrow>
                        (case getTerminator B ph of
                           None \<Rightarrow> (False, False, B)
                         | Some t \<Rightarrow> (True, True, insertBefore (eraseFromParent B k) Inst t)))
             | _ \<Rightarrow> (False, False, B)))"

text \<open>The state before the pass has run: the flag false, the statics null, the counters zero.\<close>

definition s0 :: state where
  "s0 = \<lparr>hasAStore = False, prev = None, prevLoop = None, NumLoops = 0, NumLoopsWithCall = 0,
         NumLoopsNoLoads = 0, NumLoopsNoStores = 0, LICMBasic = 0, LICMLoadHoist = 0,
         LICMNoPreheader = 0\<rparr>"

text \<open>Block 0 is the entry block and dominates every block; a block dominates itself.\<close>

definition DT1 :: domtree where
  "DT1 a b = (a = 0 \<or> a = b)"

text \<open>
  One loop, block 1, with preheader block 0. The loop loads the global 7 and stores the
  loaded value to the global 8:
  \<^verbatim>\<open>
  b0:  br b1
  b1:  %2 = load @7
       store %2, @8
       br b1, exit
  \<close>
\<close>

definition B1 :: func_body where
  "B1 = [(0, [Instr 1 (Term [])]),
         (1, [Instr 2 (Load False (Const 7)),
              Instr 3 (Store False (InstV 2) (Const 8)),
              Instr 4 (Term [])])]"

definition L1 :: loop where
  "L1 = Loop 10 [1] [] (Some 0) [1]"

text \<open>
  A root loop (blocks 1, 2, 3, preheader 0) around a child loop (block 2); the child
  holds the load and the store. \<open>C2\<close> has block 1 as its preheader; \<open>C3\<close> is the same
  child without a preheader (block 1, which enters it, also branches to block 3).
\<close>

definition B2 :: func_body where
  "B2 = [(0, [Instr 1 (Term [])]),
         (1, [Instr 2 (Term [])]),
         (2, [Instr 3 (Load False (Const 7)),
              Instr 4 (Store False (InstV 3) (Const 8)),
              Instr 5 (Term [])]),
         (3, [Instr 6 (Term [])])]"

definition C2 :: loop where
  "C2 = Loop 11 [2] [] (Some 1) [2]"

definition R2 :: loop where
  "R2 = Loop 10 [1, 2, 3] [C2] (Some 0) [3]"

definition C3 :: loop where
  "C3 = Loop 11 [2] [] None [2]"

definition R3 :: loop where
  "R3 = Loop 10 [1, 2, 3] [C3] (Some 0) [3]"

text \<open>The root loop of \<open>R2\<close> without a preheader.\<close>

definition R2n :: loop where
  "R2n = Loop 10 [1, 2, 3] [C2] None [3]"

text \<open>
  Three loops nested in one another: the root (blocks 1 to 5, preheader 0), its child
  (blocks 2, 3, 4, preheader 1) and the child's child (block 3, preheader 2). Block 2
  allocates a stack slot, block 3 loads from it.
\<close>

definition B4 :: func_body where
  "B4 = [(0, [Instr 1 (Term [])]),
         (1, [Instr 2 (Term [])]),
         (2, [Instr 3 Alloca, Instr 4 (Term [])]),
         (3, [Instr 5 (Load False (InstV 3)),
              Instr 6 (Store False (InstV 5) (Const 8)),
              Instr 7 (Term [])]),
         (4, [Instr 8 (Term [])]),
         (5, [Instr 9 (Term [])])]"

definition G4 :: loop where
  "G4 = Loop 12 [3] [] (Some 2) [3]"

definition C4 :: loop where
  "C4 = Loop 11 [2, 3, 4] [G4] (Some 1) [4]"





definition B8 :: func_body where
  "B8 = [(0, [Instr 1 (Term [])]),
         (1, [Instr 2 (Load False (Const 7)),
              Instr 3 (Load False (Const 8)),
              Instr 4 (Call [InstV 2, InstV 3]),
              Instr 5 (Term [])])]"

definition B9 :: func_body where
  "B9 = [(0, [Instr 1 (Term [])]),
         (1, [Instr 2 (Load False (Const 7)), Instr 3 (Term [])]),
         (2, [Instr 4 (Call [InstV 2]), Instr 5 (Term [])]),
         (3, [Instr 6 (Term [])])]"

definition B10 :: func_body where
  "B10 = [(0, [Instr 1 (Term [])]),
          (1, [Instr 2 (Store False (Const 1) (Const 8)), Instr 3 (Term [])])]"

text \<open>
  A body for \<open>L1\<close> without a load: the loop computes a value from two constants and
  stores it.
\<close>

definition B11 :: func_body where
  "B11 = [(0, [Instr 1 (Term [])]),
          (1, [Instr 2 (Other [Const 1, Const 2]),
               Instr 3 (Store False (InstV 2) (Const 8)),
               Instr 4 (Term [])])]"

definition L5 :: loop where
  "L5 = Loop 20 [1] [] (Some 0) [1]"

text \<open>
  More bodies for \<open>L1\<close>. In \<open>B12\<close> the loop stores to the global it loads; in
  \<open>B13\<close> it stores through a pointer computed in the preheader. \<open>B14\<close> is \<open>B5\<close> with
  a store in the loop; in \<open>B15\<close> the pointer the load reads through is computed inside
  the loop.
\<close>

definition B12 :: func_body where
  "B12 = [(0, [Instr 1 (Term [])]),
          (1, [Instr 2 (Load False (Const 7)),
               Instr 3 (Store False (InstV 2) (Const 7)),
               Instr 4 (Term [])])]"

definition B13 :: func_body where
  "B13 = [(0, [Instr 1 (Other [Const 9]), Instr 2 (Term [])]),
          (1, [Instr 3 (Load False (Const 7)),
               Instr 4 (Store False (InstV 3) (InstV 1)),
               Instr 5 (Term [])])]"





text \<open>
  The body \<open>B2\<close> with a store to the loaded global in block 3, a block of the root
  \<open>R2\<close> outside the child \<open>C2\<close>.
\<close>

definition B17 :: func_body where
  "B17 = [(0, [Instr 1 (Term [])]),
          (1, [Instr 2 (Term [])]),
          (2, [Instr 3 (Load False (Const 7)),
               Instr 4 (Store False (InstV 3) (Const 8)),
               Instr 5 (Term [])]),
          (3, [Instr 6 (Store False (Const 1) (Const 7)), Instr 7 (Term [])])]"


text \<open>
  A root loop that is left from its header: blocks 1 to 4 with preheader 0 and exiting
  block 1, around a child loop, block 3 with preheader 2. The blocks follow one another,
  0 to 4, with the back edges from 3 to 3 and from 4 to 1, so that a block dominates
  exactly the blocks from itself on (\<open>DT2\<close>). The child loads through a pointer
  computed in block 0.
\<close>

definition DT2 :: domtree where
  "DT2 a b = (a \<le> b)"

definition C5 :: loop where
  "C5 = Loop 11 [3] [] (Some 2) [3]"

definition R5 :: loop where
  "R5 = Loop 10 [1, 2, 3, 4] [C5] (Some 0) [1]"

definition B19 :: func_body where
  "B19 = [(0, [Instr 1 (Other [Const 7]), Instr 2 (Term [])]),
          (1, [Instr 3 (Term [])]),
          (2, [Instr 4 (Term [])]),
          (3, [Instr 5 (Load False (InstV 1)), Instr 6 (Term [])]),
          (4, [Instr 7 (Term [])])]"

definition module1 :: "func list" where
  "module1 = [\<lparr>fblocks = B9, floops = [R2], fdom = DT1\<rparr>,
              \<lparr>fblocks = [], floops = [], fdom = DT1\<rparr>,
              \<lparr>fblocks = B10, floops = [L5], fdom = DT1\<rparr>]"

section \<open>Auxiliary facts\<close>

subsection \<open>Instructions and the legality check\<close>

lemma getOperand_Load: "kind I = Load vol a \<Longrightarrow> getOperand I 0 = Some a"
  by (simp add: getOperand_def)

lemma isVolatile_Load: "kind I = Load vol a \<Longrightarrow> isVolatile I = vol"
  by (cases I) simp

lemma scanStores_fst:
  "fst (scanStores B addr xs h) = (\<exists>st \<in> set xs. \<exists>vol v. kind st = Store vol v addr)"
  by (induction xs arbitrary: h) (auto simp: Let_def split: kind.splits)

lemma scanStores_snd_mono: "scanStores B addr xs h = (c, h') \<Longrightarrow> h \<Longrightarrow> h'"
  by (induction xs arbitrary: h) (auto simp: Let_def split: kind.splits if_splits)

lemma scanStores_snd:
  "\<not> fst (scanStores B addr xs h) \<Longrightarrow>
   snd (scanStores B addr xs h) =
     (h \<or> (\<exists>st \<in> set xs. \<exists>vol v p.
              kind st = Store vol v p \<and> \<not> isaConstant p \<and> \<not> isaAllocaInst B p))"
  by (induction xs arbitrary: h) (auto simp: Let_def split: kind.splits if_splits)

lemma isaAllocaInst_InstV: "isaAllocaInst B addr \<Longrightarrow> \<exists>k. addr = InstV k"
  by (cases addr) (simp_all add: isaAllocaInst_def)

lemma canMoveOutOfLoop_call:
  "list_ex isCall (loopInsts B L) \<Longrightarrow> \<exists>s'. canMoveOutOfLoop L I DT B s = Inr (False, s')"
  by (simp add: canMoveOutOfLoop_def)

lemma canMoveOutOfLoop_vol:
  "isVolatile I \<Longrightarrow> canMoveOutOfLoop L I DT B s = Inr (False, s)"
  by (simp add: canMoveOutOfLoop_def)

lemma canMoveOutOfLoop_LoadHoist:
  "canMoveOutOfLoop L I DT B s = Inr (ok, s') \<Longrightarrow> LICMLoadHoist s' = LICMLoadHoist s"
  by (auto simp: canMoveOutOfLoop_def split: if_splits option.splits prod.splits bool.splits)

subsection \<open>Loop nests\<close>

lemma loopNest_self: "L \<in> set (loopNest L)"
  by (cases L) simp

lemma wfLoop_nest_blocks:
  "wfLoop L \<Longrightarrow> C \<in> set (loopNest L) \<Longrightarrow> set (getBlocks C) \<subseteq> set (getBlocks L)"
proof (induction L arbitrary: C)
  case (Loop n bs subs ph ex)
  show ?case
  proof (cases "C = Loop n bs subs ph ex")
    case True
    then show ?thesis by simp
  next
    case False
    with Loop.prems(2) obtain c where c: "c \<in> set subs" "C \<in> set (loopNest c)"
      by auto
    from Loop.prems(1) c(1) have sub: "set (getBlocks c) \<subseteq> set bs" and wf: "wfLoop c"
      by (auto simp: list_all_iff)
    from Loop.IH [OF c(1) wf c(2)] sub show ?thesis by auto
  qed
qed

text \<open>
  \<^verbatim>\<open>instrIsInLoop\<close> in terms of blocks: the block that holds the instruction is a
  block of the loop or of a loop nested in it, at any depth; with the blocks of nested
  loops among the blocks of the loop, it is a block of the loop.
\<close>

lemma instrIsInLoop_nest:
  "instrIsInLoop B L k =
     (\<exists>C \<in> set (loopNest L). \<exists>b \<in> set (getBlocks C). getParent B k = Some b)"
proof (induction L)
  case (Loop n bs subs ph ex)
  have "contains (Loop n bs subs ph ex) (getParent B k) = (\<exists>b \<in> set bs. getParent B k = Some b)"
    by (auto simp: contains_def split: option.splits)
  with Loop.IH show ?case by (auto simp: list_ex_iff)
qed

lemma nest_blocks_wf:
  assumes "wfLoop L"
  shows "(\<exists>C \<in> set (loopNest L). \<exists>b \<in> set (getBlocks C). p = Some b) =
         (\<exists>b \<in> set (getBlocks L). p = Some b)"
  using wfLoop_nest_blocks [OF assms] loopNest_self [of L] by blast

lemma instrIsInLoop_wf:
  "wfLoop L \<Longrightarrow> instrIsInLoop B L k = (\<exists>b \<in> set (getBlocks L). getParent B k = Some b)"
  by (simp add: instrIsInLoop_nest nest_blocks_wf)

lemma loopInsts_mono:
  "set (getBlocks C) \<subseteq> set (getBlocks L) \<Longrightarrow> set (loopInsts B C) \<subseteq> set (loopInsts B L)"
  by (auto simp: loopInsts_def)

lemma list_ex_mono_set: "set xs \<subseteq> set ys \<Longrightarrow> list_ex P xs \<Longrightarrow> list_ex P ys"
  by (auto simp: list_ex_iff)

subsection \<open>The use list after a hoisted load\<close>

lemma fold_max_ge: "(a::nat) \<le> fold max xs a"
  by (induction xs arbitrary: a) (auto intro: order_trans [OF max.cobounded2])

lemma fold_max_mem: "(x::nat) \<in> set xs \<Longrightarrow> x \<le> fold max xs a"
proof (induction xs arbitrary: a)
  case Nil
  then show ?case by simp
next
  case (Cons y ys)
  show ?case
  proof (cases "x = y")
    case True
    have "max y a \<le> fold max ys (max y a)" by (rule fold_max_ge)
    with True show ?thesis by simp
  next
    case False
    with Cons.prems have "x \<in> set ys" by simp
    from Cons.IH [OF this] show ?thesis by simp
  qed
qed

lemma freshId_fresh: "Inst \<in> set (allInsts B) \<Longrightarrow> ident Inst < freshId B"
  using fold_max_mem [of "ident Inst" "map ident (allInsts B)" 0]
  by (simp add: freshId_def less_Suc_eq_le)

lemma operands_replaceInKind:
  "new \<noteq> old \<Longrightarrow> InstV old \<notin> set (operands (replaceInKind old new kd))"
  by (cases kd) (auto simp: replaceVal_def)

lemma ident_redirectUses [simp]: "ident (redirectUses old new i) = ident i"
  by (simp add: redirectUses_def)

lemma allInsts_replaceAllUsesWith:
  "allInsts (replaceAllUsesWith B old new) = map (redirectUses old new) (allInsts B)"
  by (induction B) (simp_all add: allInsts_def replaceAllUsesWith_def)

lemma allInsts_eraseFromParent:
  "allInsts (eraseFromParent B k) = filter (\<lambda>i. ident i \<noteq> k) (allInsts B)"
  by (induction B) (simp_all add: allInsts_def eraseFromParent_def)

lemma users_after_replace:
  "new \<noteq> old \<Longrightarrow> users (eraseFromParent (replaceAllUsesWith B old new) k) old = []"
  by (simp add: users_def allInsts_eraseFromParent allInsts_replaceAllUsesWith
      filter_empty_conv operands_replaceInKind redirectUses_def)

text \<open>
  The check for a user inside the loop comes after the redirection and the erasure: by
  then the original has no user left, so the check never succeeds for a load of the body.
\<close>

lemma hoistLoad_no_user:
  assumes "Inst \<in> set (allInsts B)" and "hoistLoad li Inst B = Inr (u, B')"
  shows "\<not> u"
proof -
  have "freshId B \<noteq> ident Inst" using freshId_fresh [OF assms(1)] by simp
  then have "\<And>B1. users (eraseFromParent (replaceAllUsesWith B1 (ident Inst) (freshId B)) (ident Inst))
                  (ident Inst) = []"
    by (rule users_after_replace)
  with assms(2) show ?thesis
    by (auto simp: hoistLoad_def Let_def clone_def userInLoop_def split: option.splits)
qed

lemma mLICM_inst_load_keeps_mRetVal:
  assumes "isLoad Inst" and "Inst \<in> set (allInsts B)"
    and "mLICM_inst prim li mDT Inst (mRetVal, isOpt, B, s) = Inr (mRetVal', isOpt', B', s')"
  shows "mRetVal' = mRetVal"
  using assms hoistLoad_no_user [OF assms(2)]
  by (auto simp: mLICM_inst_def split: sum.splits if_splits prod.splits)

subsection \<open>What hoisting a load does to the body\<close>

text \<open>
  For a load of the body that is not in the preheader, with the instructions of the
  preheader distinct: the clone, a new instruction with the opcode and operands of the
  load, stands right before the terminator of the preheader; every other block keeps
  its instructions but the load; and no instruction is the load or has it as an operand
  any more, each such operand now being the clone.
\<close>

lemma blockInsts_map_blocks:
  "f [] = [] \<Longrightarrow> blockInsts (map (\<lambda>blk. (fst blk, f (snd blk))) B) b = f (blockInsts B b)"
  by (induction B) (auto simp: blockInsts_def)

lemma insertBeforeIn_absent: "t \<notin> ident ` set xs \<Longrightarrow> insertBeforeIn t c xs = xs"
  by (induction xs) auto

lemma insertBeforeIn_last:
  "xs \<noteq> [] \<Longrightarrow> distinct (map ident xs) \<Longrightarrow>
   insertBeforeIn (ident (last xs)) c xs = butlast xs @ [c, last xs]"
proof (induction xs)
  case Nil
  then show ?case by simp
next
  case (Cons x xs)
  show ?case
  proof (cases "xs = []")
    case True
    then show ?thesis by simp
  next
    case False
    with Cons.prems have "ident x \<noteq> ident (last xs)" by auto
    with False Cons show ?thesis by simp
  qed
qed

lemma getTerminator_Some:
  "getTerminator B b = Some t \<Longrightarrow>
   blockInsts B b \<noteq> [] \<and> t = ident (last (blockInsts B b)) \<and> isTerminator (last (blockInsts B b))"
  by (auto simp: getTerminator_def split: list.splits if_splits)

lemma blockInsts_eraseFromParent:
  "blockInsts (eraseFromParent B k) b = filter (\<lambda>i. ident i \<noteq> k) (blockInsts B b)"
  by (simp add: eraseFromParent_def blockInsts_map_blocks)

lemma blockInsts_replaceAllUsesWith:
  "blockInsts (replaceAllUsesWith B old new) b = map (redirectUses old new) (blockInsts B b)"
  by (simp add: replaceAllUsesWith_def blockInsts_map_blocks)

lemma blockInsts_insertBefore:
  "blockInsts (insertBefore B c t) b = insertBeforeIn t c (blockInsts B b)"
  by (simp add: insertBefore_def blockInsts_map_blocks)

lemma blockInsts_hoisted:
  "blockInsts (eraseFromParent (replaceAllUsesWith (insertBefore B c t) old new) k) b =
     filter (\<lambda>i. ident i \<noteq> k) (map (redirectUses old new) (insertBeforeIn t c (blockInsts B b)))"
  by (simp only: blockInsts_eraseFromParent blockInsts_replaceAllUsesWith blockInsts_insertBefore)

lemma filter_ident_absent:
  "k \<notin> ident ` set xs \<Longrightarrow> filter (\<lambda>i. ident i \<noteq> k) (map (redirectUses old new) xs) =
     map (redirectUses old new) xs"
  by (induction xs) auto

lemma hoistLoad_effect:
  assumes ph: "getLoopPreheader li = Some ph" and t: "getTerminator B ph = Some t"
    and mem: "Inst \<in> set (allInsts B)"
    and dist: "distinct (map ident (blockInsts B ph))"
    and notin: "ident Inst \<notin> ident ` set (blockInsts B ph)"
  shows "\<exists>B'. hoistLoad li Inst B = Inr (False, B') \<and>
           blockInsts B' ph =
             map (redirectUses (ident Inst) (freshId B)) (butlast (blockInsts B ph)) @
             [redirectUses (ident Inst) (freshId B) (Instr (freshId B) (kind Inst)),
              redirectUses (ident Inst) (freshId B) (last (blockInsts B ph))] \<and>
           (\<forall>b. t \<notin> ident ` set (blockInsts B b) \<longrightarrow>
                blockInsts B' b =
                  filter (\<lambda>i. ident i \<noteq> ident Inst)
                    (map (redirectUses (ident Inst) (freshId B)) (blockInsts B b))) \<and>
           (\<forall>i \<in> set (allInsts B'). ident i \<noteq> ident Inst \<and>
                InstV (ident Inst) \<notin> set (operands (kind i)))"
proof -
  let ?k = "ident Inst" and ?c = "freshId B"
  let ?B' = "eraseFromParent (replaceAllUsesWith (insertBefore B (clone B Inst) t) ?k ?c) ?k"
  have fresh: "?c \<noteq> ?k" using freshId_fresh [OF mem] by simp
  from getTerminator_Some [OF t] have ne: "blockInsts B ph \<noteq> []"
    and tl: "t = ident (last (blockInsts B ph))" by simp_all
  have "users ?B' ?k = []" using fresh by (rule users_after_replace)
  then have h: "hoistLoad li Inst B = Inr (False, ?B')"
    using ph t by (simp add: hoistLoad_def Let_def clone_def userInLoop_def)
  have ins: "insertBeforeIn t (clone B Inst) (blockInsts B ph) =
               butlast (blockInsts B ph) @ [clone B Inst, last (blockInsts B ph)]"
    unfolding tl using ne dist by (rule insertBeforeIn_last)
  have "?k \<notin> ident ` set (butlast (blockInsts B ph) @ [clone B Inst, last (blockInsts B ph)])"
    using notin fresh last_in_set [OF ne] by (auto simp: clone_def dest: in_set_butlastD)
  then have p1: "blockInsts ?B' ph =
             map (redirectUses ?k ?c) (butlast (blockInsts B ph)) @
             [redirectUses ?k ?c (Instr ?c (kind Inst)),
              redirectUses ?k ?c (last (blockInsts B ph))]"
    unfolding blockInsts_hoisted ins by (simp add: filter_ident_absent clone_def)
  have p2: "\<forall>b. t \<notin> ident ` set (blockInsts B b) \<longrightarrow>
                blockInsts ?B' b =
                  filter (\<lambda>i. ident i \<noteq> ?k) (map (redirectUses ?k ?c) (blockInsts B b))"
    by (simp add: blockInsts_hoisted insertBeforeIn_absent)
  have p3: "\<forall>i \<in> set (allInsts ?B'). ident i \<noteq> ?k \<and> InstV ?k \<notin> set (operands (kind i))"
    using fresh
    by (auto simp: allInsts_eraseFromParent allInsts_replaceAllUsesWith operands_replaceInKind
        redirectUses_def)
  from h p1 p2 p3 show ?thesis by blast
qed

text \<open>
  The step of \<^verbatim>\<open>mLICM\<close> for a load the check accepts: the hoist above, with
  \<^verbatim>\<open>LICMLoadHoist\<close> incremented, \<^verbatim>\<open>isOpt\<close> set and \<^verbatim>\<open>mRetVal\<close> as it was.
\<close>

lemma mLICM_inst_hoists_legal_load:
  assumes ld: "isLoad Inst"
    and legal: "canMoveOutOfLoop li Inst mDT B s = Inr (True, s1)"
    and ph: "getLoopPreheader li = Some ph" and t: "getTerminator B ph = Some t"
    and mem: "Inst \<in> set (allInsts B)"
    and dist: "distinct (map ident (blockInsts B ph))"
    and notin: "ident Inst \<notin> ident ` set (blockInsts B ph)"
  shows "\<exists>B'. mLICM_inst prim li mDT Inst (mRetVal, isOpt, B, s) =
             Inr (mRetVal, True, B', s1\<lparr>LICMLoadHoist := LICMLoadHoist s1 + 1\<rparr>) \<and>
           blockInsts B' ph =
             map (redirectUses (ident Inst) (freshId B)) (butlast (blockInsts B ph)) @
             [redirectUses (ident Inst) (freshId B) (Instr (freshId B) (kind Inst)),
              redirectUses (ident Inst) (freshId B) (last (blockInsts B ph))] \<and>
           (\<forall>b. t \<notin> ident ` set (blockInsts B b) \<longrightarrow>
                blockInsts B' b =
                  filter (\<lambda>i. ident i \<noteq> ident Inst)
                    (map (redirectUses (ident Inst) (freshId B)) (blockInsts B b))) \<and>
           (\<forall>i \<in> set (allInsts B'). ident i \<noteq> ident Inst \<and>
                InstV (ident Inst) \<notin> set (operands (kind i)))"
proof -
  from hoistLoad_effect [OF ph t mem dist notin] obtain B' where
    h: "hoistLoad li Inst B = Inr (False, B')"
    and rest: "blockInsts B' ph =
             map (redirectUses (ident Inst) (freshId B)) (butlast (blockInsts B ph)) @
             [redirectUses (ident Inst) (freshId B) (Instr (freshId B) (kind Inst)),
              redirectUses (ident Inst) (freshId B) (last (blockInsts B ph))]"
      "\<forall>b. t \<notin> ident ` set (blockInsts B b) \<longrightarrow>
                blockInsts B' b =
                  filter (\<lambda>i. ident i \<noteq> ident Inst)
                    (map (redirectUses (ident Inst) (freshId B)) (blockInsts B b))"
      "\<forall>i \<in> set (allInsts B'). ident i \<noteq> ident Inst \<and>
                InstV (ident Inst) \<notin> set (operands (kind i))"
    by blast
  from ld legal h have "mLICM_inst prim li mDT Inst (mRetVal, isOpt, B, s) =
             Inr (mRetVal, True, B', s1\<lparr>LICMLoadHoist := LICMLoadHoist s1 + 1\<rparr>)"
    by (simp add: mLICM_inst_def)
  with rest show ?thesis by blast
qed

subsection \<open>When a pass returns true\<close>

text \<open>
  A pass returns true only through a hoist that the library primitive reports: with a
  primitive that never reports a change, a pass never returns true, whatever loads it
  hoists, and the \<^verbatim>\<open>while\<close> loop of the driver ends after one pass.
\<close>

lemma findInst_mem: "findInst B k = Some Inst \<Longrightarrow> Inst \<in> set (allInsts B)"
  by (auto simp: findInst_def find_Some_iff)

lemma mLICM_inst_mRetVal:
  assumes inert: "neverChanges prim li"
    and mem: "Inst \<in> set (allInsts B)"
    and run: "mLICM_inst prim li mDT Inst (r, o1, B, s) = Inr (r', o', B', s')"
  shows "r' = r"
proof (cases "isLoad Inst")
  case True
  from True mem run show ?thesis by (rule mLICM_inst_load_keeps_mRetVal)
next
  case False
  obtain ok changed B1 where p: "prim li (ident Inst) B = (ok, changed, B1)"
    by (cases "prim li (ident Inst) B") auto
  from inert have "\<not> (fst (prim li (ident Inst) B) \<and> fst (snd (prim li (ident Inst) B)))"
    unfolding neverChanges_def by blast
  with p have "\<not> (ok \<and> changed)" by simp
  with False p run show ?thesis
    by (auto simp: mLICM_inst_def split: if_splits)
qed

lemma mLICM_insts_mRetVal:
  assumes inert: "neverChanges prim li"
  shows "mLICM_insts prim li mDT ks (r, o1, B, s) = Inr (r', o', B', s') \<Longrightarrow> r' = r"
proof (induction ks arbitrary: r o1 B s)
  case Nil
  then show ?case by simp
next
  case (Cons k ks)
  show ?case
  proof (cases "findInst B k")
    case None
    with Cons.prems have "mLICM_insts prim li mDT ks (r, o1, B, s) = Inr (r', o', B', s')" by simp
    then show ?thesis by (rule Cons.IH)
  next
    case (Some Inst)
    with Cons.prems obtain acc1 where
      one: "mLICM_inst prim li mDT Inst (r, o1, B, s) = Inr acc1"
      and rest: "mLICM_insts prim li mDT ks acc1 = Inr (r', o', B', s')"
      by (auto split: sum.splits)
    obtain r1 o2 B1 s1 where acc1: "acc1 = (r1, o2, B1, s1)" by (cases acc1) auto
    from one acc1 have "r1 = r"
      using mLICM_inst_mRetVal [OF inert findInst_mem [OF Some]] by blast
    moreover from rest acc1 have "r' = r1" by (auto dest: Cons.IH)
    ultimately show ?thesis by simp
  qed
qed

lemma mLICM_blocks_mRetVal:
  assumes inert: "neverChanges prim li"
  shows "mLICM_blocks prim li mDT bbs (r, o1, B, s) = Inr (r', o', B', s') \<Longrightarrow> r' = r"
proof (induction bbs arbitrary: r o1 B s)
  case Nil
  then show ?case by simp
next
  case (Cons bb bbs)
  from Cons.prems obtain acc1 where
    one: "mLICM_insts prim li mDT (map ident (blockInsts B bb)) (r, o1, B, s) = Inr acc1"
    and rest: "mLICM_blocks prim li mDT bbs acc1 = Inr (r', o', B', s')"
    by (auto split: sum.splits)
  obtain r1 o2 B1 s1 where acc1: "acc1 = (r1, o2, B1, s1)" by (cases acc1) auto
  from one acc1 have "r1 = r" using mLICM_insts_mRetVal [OF inert] by blast
  moreover from rest acc1 have "r' = r1" by (auto dest: Cons.IH)
  ultimately show ?case by simp
qed

lemma mLICM_true_only_by_primitive:
  assumes inert: "neverChanges prim li"
    and run: "mLICM prim li mDT st = Inr (r, st')"
  shows "\<not> r"
proof -
  obtain B s where st: "st = (B, s)" by (cases st) auto
  with run obtain isOpt B1 s1 where
    "mLICM_blocks prim li mDT (getBlocks li) (False, False, B, s\<lparr>hasAStore := False\<rparr>)
       = Inr (r, isOpt, B1, s1)"
    by (auto simp: mLICM_def split: sum.splits prod.splits)
  from mLICM_blocks_mRetVal [OF inert this] show ?thesis by simp
qed

lemma whileLICM_one_pass:
  assumes inert: "neverChanges prim li"
  shows "whileLICM prim li mDT st =
           (case mLICM prim li mDT st of Inl e \<Rightarrow> Some (Inl e) | Inr r \<Rightarrow> Some (Inr (snd r)))"
proof (cases "mLICM prim li mDT st")
  case (Inl e)
  then show ?thesis by (subst whileLICM.simps) simp
next
  case (Inr p)
  obtain r st' where p: "p = (r, st')" by (cases p) auto
  with Inr mLICM_true_only_by_primitive [OF inert] have "\<not> r" by blast
  with Inr p show ?thesis by (subst whileLICM.simps) simp
qed

text \<open>
  The branch for the other opcodes does report the user: on \<open>L1\<close> with the body
  \<open>B11\<close> the computation is hoisted, the store that uses it is in the loop, the first
  pass returns true and the second pass ends the run.
\<close>

lemma mLICM_other_opcode_reports_user:
  "mLICM hoistIfInvariant L1 DT1 (B11, s0) =
     Inr (True,
          [(0, [Instr 2 (Other [Const 1, Const 2]), Instr 1 (Term [])]),
           (1, [Instr 3 (Store False (InstV 2) (Const 8)), Instr 4 (Term [])])],
          s0\<lparr>prevLoop := Some 10, LICMBasic := 1\<rparr>) \<and>
   whileLICM hoistIfInvariant L1 DT1 (B11, s0) =
     Some (Inr ([(0, [Instr 2 (Other [Const 1, Const 2]), Instr 1 (Term [])]),
                 (1, [Instr 3 (Store False (InstV 2) (Const 8)), Instr 4 (Term [])])],
                s0\<lparr>prevLoop := Some 10, LICMBasic := 1\<rparr>))"
  by code_simp

subsection \<open>The guarded statistics along a scan\<close>

lemma statsStep_refl: "statsStep L s s"
  by (simp add: statsStep_def)

lemma statsStep_trans: "statsStep L s t \<Longrightarrow> statsStep L t u \<Longrightarrow> statsStep L s u"
  by (auto simp: statsStep_def)

lemma canMoveOutOfLoop_statsStep:
  "canMoveOutOfLoop L I DT B s = Inr (ok, s') \<Longrightarrow> statsStep L s s'"
  by (auto simp: canMoveOutOfLoop_def statsStep_def
      split: if_splits option.splits prod.splits bool.splits)

lemma mLICM_inst_statsStep:
  assumes "mLICM_inst prim L DT I (r, o1, B, s) = Inr (r', o', B', s')"
  shows "statsStep L s s'"
proof (cases "isLoad I")
  case True
  with assms obtain ok s1 where c: "canMoveOutOfLoop L I DT B s = Inr (ok, s1)"
    and s': "s' = s1 \<or> s' = s1\<lparr>LICMLoadHoist := LICMLoadHoist s1 + 1\<rparr>"
    by (auto simp: mLICM_inst_def split: sum.splits if_splits prod.splits)
  from canMoveOutOfLoop_statsStep [OF c] s' show ?thesis
    by (auto simp: statsStep_def)
next
  case False
  with assms have "s' = s \<or> s' = s\<lparr>LICMBasic := LICMBasic s + 1\<rparr>"
    by (auto simp: mLICM_inst_def split: if_splits prod.splits)
  then show ?thesis by (auto simp: statsStep_def)
qed

lemma mLICM_insts_statsStep:
  "mLICM_insts prim L DT ks (r, o1, B, s) = Inr (r', o', B', s') \<Longrightarrow> statsStep L s s'"
proof (induction ks arbitrary: r o1 B s)
  case Nil
  then show ?case by (simp add: statsStep_refl)
next
  case (Cons k ks)
  show ?case
  proof (cases "findInst B k")
    case None
    with Cons.prems have "mLICM_insts prim L DT ks (r, o1, B, s) = Inr (r', o', B', s')" by simp
    then show ?thesis by (rule Cons.IH)
  next
    case (Some Inst)
    with Cons.prems obtain acc1 where
      one: "mLICM_inst prim L DT Inst (r, o1, B, s) = Inr acc1"
      and rest: "mLICM_insts prim L DT ks acc1 = Inr (r', o', B', s')"
      by (auto split: sum.splits)
    obtain r1 o2 B1 s1 where acc1: "acc1 = (r1, o2, B1, s1)" by (cases acc1) auto
    from one acc1 have "statsStep L s s1" by (auto dest: mLICM_inst_statsStep)
    moreover from rest acc1 have "statsStep L s1 s'" by (auto dest: Cons.IH)
    ultimately show ?thesis by (rule statsStep_trans)
  qed
qed

lemma mLICM_blocks_statsStep:
  "mLICM_blocks prim L DT bbs (r, o1, B, s) = Inr (r', o', B', s') \<Longrightarrow> statsStep L s s'"
proof (induction bbs arbitrary: r o1 B s)
  case Nil
  then show ?case by (simp add: statsStep_refl)
next
  case (Cons bb bbs)
  from Cons.prems obtain acc1 where
    one: "mLICM_insts prim L DT (map ident (blockInsts B bb)) (r, o1, B, s) = Inr acc1"
    and rest: "mLICM_blocks prim L DT bbs acc1 = Inr (r', o', B', s')"
    by (auto split: sum.splits)
  obtain r1 o2 B1 s1 where acc1: "acc1 = (r1, o2, B1, s1)" by (cases acc1) auto
  from one acc1 have "statsStep L s s1" by (auto dest: mLICM_insts_statsStep)
  moreover from rest acc1 have "statsStep L s1 s'" by (auto dest: Cons.IH)
  ultimately show ?case by (rule statsStep_trans)
qed

lemma mLICM_pass_statistics:
  assumes run: "mLICM prim li mDT (B, s) = Inr (r, B', s')"
  shows "(NumLoopsWithCall s' = NumLoopsWithCall s \<or> NumLoopsWithCall s' = NumLoopsWithCall s + 1) \<and>
      (NumLoopsNoStores s' = NumLoopsNoStores s \<or> NumLoopsNoStores s' = NumLoopsNoStores s + 1) \<and>
      (prev s = Some (lid li) \<longrightarrow> NumLoopsWithCall s' = NumLoopsWithCall s \<and> prev s' = Some (lid li)) \<and>
      (prevLoop s = Some (lid li) \<longrightarrow> NumLoopsNoStores s' = NumLoopsNoStores s) \<and>
      (NumLoopsWithCall s' \<noteq> NumLoopsWithCall s \<longrightarrow> prev s' = Some (lid li)) \<and>
      prevLoop s' = Some (lid li)"
proof -
  from run obtain isOpt s1 where
    scan: "mLICM_blocks prim li mDT (getBlocks li) (False, False, B, s\<lparr>hasAStore := False\<rparr>)
             = Inr (r, isOpt, B', s1)"
    and fin: "s' = (if prevLoop s1 = None \<or> prevLoop s1 \<noteq> Some (lid li) then
                    (if isOpt \<and> \<not> hasAStore s1
                     then s1\<lparr>prevLoop := Some (lid li), NumLoopsNoStores := NumLoopsNoStores s1 + 1\<rparr>
                     else s1\<lparr>prevLoop := Some (lid li)\<rparr>)
                  else s1)"
    by (auto simp: mLICM_def split: sum.splits prod.splits)
  from mLICM_blocks_statsStep [OF scan] have st: "statsStep li s s1"
    by (simp add: statsStep_def)
  from st fin show ?thesis
    by (auto simp: statsStep_def split: if_splits)
qed

lemma whileLICM_statistics_once:
  assumes run: "whileLICM prim li mDT (B, s) = Some (Inr (B', s'))"
  shows "(NumLoopsWithCall s' = NumLoopsWithCall s \<or> NumLoopsWithCall s' = NumLoopsWithCall s + 1) \<and>
         (NumLoopsNoStores s' = NumLoopsNoStores s \<or> NumLoopsNoStores s' = NumLoopsNoStores s + 1)"
proof -
  let ?P = "\<lambda>(prim :: hoistPrim) li (mDT :: domtree) (st :: func_body \<times> state)
               (r :: error + func_body \<times> state).
      \<forall>st'. r = Inr st' \<longrightarrow>
        (NumLoopsWithCall (snd st') = NumLoopsWithCall (snd st) \<or>
         NumLoopsWithCall (snd st') = NumLoopsWithCall (snd st) + 1) \<and>
        (NumLoopsNoStores (snd st') = NumLoopsNoStores (snd st) \<or>
         NumLoopsNoStores (snd st') = NumLoopsNoStores (snd st) + 1) \<and>
        (prev (snd st) = Some (lid li) \<longrightarrow>
           NumLoopsWithCall (snd st') = NumLoopsWithCall (snd st)) \<and>
        (prevLoop (snd st) = Some (lid li) \<longrightarrow>
           NumLoopsNoStores (snd st') = NumLoopsNoStores (snd st))"
  have "?P prim li mDT (B, s) (Inr (B', s'))"
  proof (rule whileLICM.raw_induct [where P = ?P, OF _ run])
    fix w :: "hoistPrim \<Rightarrow> loop \<Rightarrow> domtree \<Rightarrow> func_body \<times> state \<Rightarrow> (error + func_body \<times> state) option"
      and prim li mDT st r
    assume IH: "\<And>prim li mDT st r. w prim li mDT st = Some r \<Longrightarrow> ?P prim li mDT st r"
      and step: "(case mLICM prim li mDT st of Inl e \<Rightarrow> Some (Inl e)
                  | Inr r \<Rightarrow> if fst r then w prim li mDT (snd r) else Some (Inr (snd r))) = Some r"
    show "?P prim li mDT st r"
    proof (cases "mLICM prim li mDT st")
      case (Inl e)
      with step show ?thesis by auto
    next
      case (Inr p)
      obtain b B1 s1 where p: "p = (b, B1, s1)" by (cases p) auto
      obtain B0 t0 where st: "st = (B0, t0)" by (cases st) auto
      from Inr p st have pass: "mLICM prim li mDT (B0, t0) = Inr (b, B1, s1)" by simp
      note one = mLICM_pass_statistics [OF pass]
      show ?thesis
      proof (cases b)
        case False
        with step Inr p have "r = Inr (B1, s1)" by simp
        with one st show ?thesis by auto
      next
        case True
        with step Inr p have "w prim li mDT (B1, s1) = Some r" by simp
        from IH [OF this] one st show ?thesis by auto
      qed
    qed
  qed
  then show ?thesis by simp
qed

subsection \<open>The driver\<close>

text \<open>A \<^verbatim>\<open>while(mLICM(...))\<close> that ends without an error ends in a pass that returned false.\<close>

lemma whileLICM_last_pass:
  assumes run: "whileLICM prim li mDT st = Some (Inr st')"
  shows "\<exists>st2. mLICM prim li mDT st2 = Inr (False, st')"
proof -
  have "\<forall>st'. r = Inr st' \<longrightarrow> (\<exists>st2. mLICM prim li mDT st2 = Inr (False, st'))"
    if "whileLICM prim li mDT st = Some r" for r
  proof (rule whileLICM.raw_induct
      [where P = "\<lambda>prim li mDT st r.
                    \<forall>st'. r = Inr st' \<longrightarrow> (\<exists>st2. mLICM prim li mDT st2 = Inr (False, st'))",
        OF _ that])
    fix w :: "hoistPrim \<Rightarrow> loop \<Rightarrow> domtree \<Rightarrow> func_body \<times> state \<Rightarrow> (error + func_body \<times> state) option"
      and prim li mDT st r
    assume IH: "\<And>prim li mDT st r. w prim li mDT st = Some r \<Longrightarrow>
                  \<forall>st'. r = Inr st' \<longrightarrow> (\<exists>st2. mLICM prim li mDT st2 = Inr (False, st'))"
      and step: "(case mLICM prim li mDT st of Inl e \<Rightarrow> Some (Inl e)
                  | Inr r \<Rightarrow> if fst r then w prim li mDT (snd r) else Some (Inr (snd r))) = Some r"
    show "\<forall>st'. r = Inr st' \<longrightarrow> (\<exists>st2. mLICM prim li mDT st2 = Inr (False, st'))"
    proof (cases "mLICM prim li mDT st")
      case (Inl e)
      with step show ?thesis by auto
    next
      case (Inr p)
      show ?thesis
      proof (cases "fst p")
        case True
        with step Inr have "w prim li mDT (snd p) = Some r" by simp
        then show ?thesis by (rule IH)
      next
        case False
        with step Inr have r: "r = Inr (snd p)" by simp
        from False Inr have "mLICM prim li mDT st = Inr (False, snd p)"
          by (cases p) simp
        with r show ?thesis by blast
      qed
    qed
  qed
  with run show ?thesis by blast
qed

lemma subLoopsLICM_chain:
  "(subLoopsLICM prim mDT cs st = Some (Inr st1)) =
   (\<exists>ss. childRuns prim mDT cs ss \<and> hd ss = st \<and> last ss = st1)"
proof (induction cs arbitrary: st)
  case Nil
  show ?case
  proof
    assume "subLoopsLICM prim mDT [] st = Some (Inr st1)"
    then have "childRuns prim mDT [] [st] \<and> hd [st] = st \<and> last [st] = st1" by simp
    then show "\<exists>ss. childRuns prim mDT [] ss \<and> hd ss = st \<and> last ss = st1" by blast
  next
    assume "\<exists>ss. childRuns prim mDT [] ss \<and> hd ss = st \<and> last ss = st1"
    then obtain ss where "length ss = 1" "hd ss = st" "last ss = st1" by auto
    then show "subLoopsLICM prim mDT [] st = Some (Inr st1)"
      by (cases ss) auto
  qed
next
  case (Cons c cs)
  let ?st = "(fst st, (snd st)\<lparr>NumLoops := NumLoops (snd st) + 1\<rparr>)"
  show ?case
  proof
    assume run: "subLoopsLICM prim mDT (c # cs) st = Some (Inr st1)"
    then obtain st2 where w: "whileLICM prim c mDT ?st = Some (Inr st2)"
      and rest: "subLoopsLICM prim mDT cs st2 = Some (Inr st1)"
      by (auto split: option.splits sum.splits)
    from rest Cons.IH [of st2] obtain ss where
      ss: "childRuns prim mDT cs ss" "hd ss = st2" "last ss = st1" by blast
    from ss(1) have "ss \<noteq> []" by (cases cs) (auto split: list.splits)
    with ss(2) obtain ss1 where ss1: "ss = st2 # ss1" by (cases ss) auto
    have "childRuns prim mDT (c # cs) (st # ss)" using w ss(1) ss1 by simp
    moreover have "hd (st # ss) = st" by simp
    moreover have "last (st # ss) = st1" using ss(3) \<open>ss \<noteq> []\<close> by simp
    ultimately show "\<exists>ss. childRuns prim mDT (c # cs) ss \<and> hd ss = st \<and> last ss = st1"
      by blast
  next
    assume "\<exists>ss. childRuns prim mDT (c # cs) ss \<and> hd ss = st \<and> last ss = st1"
    then obtain ss where ss: "childRuns prim mDT (c # cs) ss" "hd ss = st" "last ss = st1"
      by blast
    from ss(1) obtain a st2 ss1 where shape: "ss = a # st2 # ss1"
      by (auto split: list.splits)
    with ss(2) have a: "a = st" by simp
    from ss(1) shape a have w: "whileLICM prim c mDT ?st = Some (Inr st2)"
      and rest: "childRuns prim mDT cs (st2 # ss1)" by auto
    from ss(3) shape have "last (st2 # ss1) = st1" by simp
    with rest Cons.IH [of st2] have "subLoopsLICM prim mDT cs st2 = Some (Inr st1)"
      by (metis list.sel(1))
    with w show "subLoopsLICM prim mDT (c # cs) st = Some (Inr st1)" by simp
  qed
qed

lemma childRuns_last_pass:
  "childRuns prim mDT cs ss \<Longrightarrow> i < length cs \<Longrightarrow>
   \<exists>p. mLICM prim (cs ! i) mDT p = Inr (False, ss ! (i + 1))"
proof (induction cs arbitrary: ss i)
  case Nil
  then show ?case by simp
next
  case (Cons c cs)
  from Cons.prems(1) obtain st st1 ss1 where shape: "ss = st # st1 # ss1"
    by (auto split: list.splits)
  with Cons.prems(1) have
    w: "whileLICM prim c mDT (fst st, (snd st)\<lparr>NumLoops := NumLoops (snd st) + 1\<rparr>) = Some (Inr st1)"
    and rest: "childRuns prim mDT cs (st1 # ss1)" by auto
  show ?case
  proof (cases i)
    case 0
    with shape whileLICM_last_pass [OF w] show ?thesis by simp
  next
    case (Suc j)
    with Cons.prems(2) have "j < length cs" by simp
    from Cons.IH [OF rest this] Suc shape show ?thesis by simp
  qed
qed



text \<open>
  The runs of the driver on a root loop with a preheader that end without an error, for
  any primitive: the children in the order of \<^verbatim>\<open>getSubLoops()\<close>, then the root, each
  run ending in a pass that returned false.
\<close>

lemma LICM_loop_run_iff:
  assumes ph: "getLoopPreheader li = Some ph"
  shows "(LICM_loop prim mDT li st = Some (Inr st')) =
         (\<exists>ss. childRuns prim mDT (getSubLoops li) ss \<and> hd ss = st \<and>
               whileLICM prim li mDT
                 (fst (last ss), (snd (last ss))\<lparr>NumLoops := NumLoops (snd (last ss)) + 1\<rparr>)
                 = Some (Inr st') \<and>
               (\<forall>i < length (getSubLoops li).
                   \<exists>p. mLICM prim (getSubLoops li ! i) mDT p = Inr (False, ss ! (i + 1))) \<and>
               (\<exists>p. mLICM prim li mDT p = Inr (False, st')))"
proof
  assume run: "LICM_loop prim mDT li st = Some (Inr st')"
  then obtain st1 where
    subs: "subLoopsLICM prim mDT (getSubLoops li) st = Some (Inr st1)"
    and root: "whileLICM prim li mDT (fst st1, (snd st1)\<lparr>NumLoops := NumLoops (snd st1) + 1\<rparr>)
                 = Some (Inr st')"
    using ph by (auto simp: LICM_loop_def split: option.splits sum.splits)
  from subs obtain ss where ss: "childRuns prim mDT (getSubLoops li) ss" "hd ss = st" "last ss = st1"
    using subLoopsLICM_chain by blast
  have "\<forall>i < length (getSubLoops li).
          \<exists>p. mLICM prim (getSubLoops li ! i) mDT p = Inr (False, ss ! (i + 1))"
    using childRuns_last_pass [OF ss(1)] by blast
  moreover have "\<exists>p. mLICM prim li mDT p = Inr (False, st')"
    using whileLICM_last_pass [OF root] .
  ultimately show "\<exists>ss. childRuns prim mDT (getSubLoops li) ss \<and> hd ss = st \<and>
               whileLICM prim li mDT
                 (fst (last ss), (snd (last ss))\<lparr>NumLoops := NumLoops (snd (last ss)) + 1\<rparr>)
                 = Some (Inr st') \<and>
               (\<forall>i < length (getSubLoops li).
                   \<exists>p. mLICM prim (getSubLoops li ! i) mDT p = Inr (False, ss ! (i + 1))) \<and>
               (\<exists>p. mLICM prim li mDT p = Inr (False, st'))"
    using ss root by blast
next
  assume "\<exists>ss. childRuns prim mDT (getSubLoops li) ss \<and> hd ss = st \<and>
               whileLICM prim li mDT
                 (fst (last ss), (snd (last ss))\<lparr>NumLoops := NumLoops (snd (last ss)) + 1\<rparr>)
                 = Some (Inr st') \<and>
               (\<forall>i < length (getSubLoops li).
                   \<exists>p. mLICM prim (getSubLoops li ! i) mDT p = Inr (False, ss ! (i + 1))) \<and>
               (\<exists>p. mLICM prim li mDT p = Inr (False, st'))"
  then obtain ss where ss: "childRuns prim mDT (getSubLoops li) ss" "hd ss = st"
    and root: "whileLICM prim li mDT
                 (fst (last ss), (snd (last ss))\<lparr>NumLoops := NumLoops (snd (last ss)) + 1\<rparr>)
                 = Some (Inr st')"
    by blast
  have "subLoopsLICM prim mDT (getSubLoops li) st = Some (Inr (last ss))"
    using subLoopsLICM_chain ss by blast
  with root ph show "LICM_loop prim mDT li st = Some (Inr st')"
    by (simp add: LICM_loop_def)
qed

subsection \<open>The statistics pass\<close>

lemma numStats_loops_eq:
  "numStats_loops B ls s =
     s\<lparr>NumLoopsNoLoads :=
         NumLoopsNoLoads s + length (filter (\<lambda>li. \<not> loopContainsLoad B li) ls)\<rparr>"
  by (induction ls arbitrary: s) simp_all

text \<open>
  \<^verbatim>\<open>numStats\<close> increments \<^verbatim>\<open>NumLoopsNoLoads\<close> once for every top-level loop, of
  every function that has a body, whose blocks hold no load, and changes no other part
  of the state.
\<close>

lemma numStats_counts_top_level_loops:
  "numStats M s =
     s\<lparr>NumLoopsNoLoads := NumLoopsNoLoads s +
          (\<Sum>f \<leftarrow> M. if fblocks f = [] then 0
                      else length (filter (\<lambda>li. \<not> loopContainsLoad (fblocks f) li) (floops f)))\<rparr>"
  by (induction M arbitrary: s) (simp_all add: numStats_loops_eq)

section \<open>The run of a nest on the loads of a statically resolved address\<close>

text \<open>
  For a root loop and its children as the library reports them, a statically resolved
  address, a body whose root holds no call and no store to the address, and a library
  primitive that moves nothing but instructions of other opcodes, the run of each loop
  ends, takes every load of the address out of the blocks of the loop and puts it into
  the preheader of the loop. The
  facts below lead to this, step by step: blocks and identities, the body after a
  hoisted load, one step of the scan, the scan of a block, the pass, the
  \<^verbatim>\<open>while\<close> loop, the children in turn.
\<close>

subsection \<open>Blocks and identities\<close>

lemma blockInsts_subset: "set (blockInsts B b) \<subseteq> set (allInsts B)"
proof (cases "map_of B b")
  case None
  then show ?thesis by (simp add: blockInsts_def)
next
  case (Some xs)
  then have "(b, xs) \<in> set B" by (rule map_of_SomeD)
  then have "set xs \<subseteq> set (allInsts B)" by (force simp: allInsts_def)
  with Some show ?thesis by (simp add: blockInsts_def)
qed

lemma loopInsts_subset: "set (loopInsts B L) \<subseteq> set (allInsts B)"
  using blockInsts_subset by (auto simp: loopInsts_def)








lemma length_insertBeforeIn: "length xs \<le> length (insertBeforeIn t c xs)"
  by (induction xs) auto






subsection \<open>Redirection keeps what the pass looks at\<close>

lemma isCall_redirectUses [simp]: "isCall (redirectUses old new i) = isCall i"
  by (cases "kind i") (simp_all add: isCall_def redirectUses_def)

lemma isLoad_redirectUses [simp]: "isLoad (redirectUses old new i) = isLoad i"
  by (cases "kind i") (simp_all add: isLoad_def redirectUses_def)

lemma isTerminator_redirectUses [simp]: "isTerminator (redirectUses old new i) = isTerminator i"
  by (cases "kind i") (simp_all add: isTerminator_def redirectUses_def)



lemma loadsThroughArg_redirectUses [simp]:
  "loadsThroughArg (redirectUses old new i) = loadsThroughArg i"
  by (cases "kind i") (auto simp: loadsThroughArg_def redirectUses_def replaceVal_def split: val.splits)

lemma clone_simps [simp]:
  "ident (clone B Inst) = freshId B" "kind (clone B Inst) = kind Inst"
  by (simp_all add: clone_def)

lemma clone_preds [simp]:
  "isCall (clone B Inst) = isCall Inst" "isLoad (clone B Inst) = isLoad Inst"
  "loadOf a (clone B Inst) = loadOf a Inst" "storesTo a (clone B Inst) = storesTo a Inst"
  "loadsThroughArg (clone B Inst) = loadsThroughArg Inst"
  by (simp_all add: isCall_def isLoad_def loadOf_def storesTo_def loadsThroughArg_def)



subsection \<open>The body after a hoisted load\<close>



















subsection \<open>The legality check on the loads of the scan\<close>




subsection \<open>One step of the scan\<close>






















subsection \<open>The scan, the pass and the run of a loop\<close>









subsection \<open>The modelled primitive keeps the frame\<close>



subsection \<open>The runs of the children and of the root\<close>







text \<open>
  The condition on the stores is needed at the level of the root: with the body \<open>B17\<close>
  the child \<open>C2\<close> has no store to the global 7 and its run hoists the load into
  block 1; the root \<open>R2\<close> stores to the global in block 3, its run refuses the load,
  and the load stays in the preheader of the child.
\<close>

lemma LICM_loop_refused_at_root:
  "\<not> list_ex (storesTo (Const 7)) (loopInsts B17 C2) \<and>
   list_ex (storesTo (Const 7)) (loopInsts B17 R2) \<and>
   LICM_loop hoistIfInvariant DT1 R2 (B17, s0) =
     Some (Inr ([(0, [Instr 1 (Term [])]),
                 (1, [Instr 8 (Load False (Const 7)), Instr 2 (Term [])]),
                 (2, [Instr 4 (Store False (InstV 8) (Const 8)), Instr 5 (Term [])]),
                 (3, [Instr 6 (Store False (Const 1) (Const 7)), Instr 7 (Term [])])],
                s0\<lparr>hasAStore := True, prevLoop := Some 10, NumLoops := 2, NumLoopsNoStores := 1,
                   LICMLoadHoist := 1\<rparr>))"
  by code_simp

text \<open>
  For a load of a general address the check also asks for the block of the load to
  dominate the exiting blocks, so that what the root does with a load hoisted out of a
  child depends on the block the load is in by then. In the nest \<open>R5\<close>, left from its
  header, the run of the child \<open>C5\<close> hoists the load into block 2, the preheader of the
  child; the root has no call, no store and the address is computed outside it, but
  block 2 does not dominate the exiting block 1, the run of the root refuses the load
  and the load stays in the preheader of the child.
\<close>

lemma LICM_loop_general_address_refused_at_root:
  "\<not> list_ex isCall (loopInsts B19 R5) \<and> \<not> list_ex isStore (loopInsts B19 R5) \<and>
   getParent B19 1 = Some 0 \<and> isLoopExiting R5 1 \<and> \<not> DT2 2 1 \<and>
   subLoopsLICM hoistIfInvariant DT2 [C5] (B19, s0) =
     Some (Inr ([(0, [Instr 1 (Other [Const 7]), Instr 2 (Term [])]),
                 (1, [Instr 3 (Term [])]),
                 (2, [Instr 8 (Load False (InstV 1)), Instr 4 (Term [])]),
                 (3, [Instr 6 (Term [])]),
                 (4, [Instr 7 (Term [])])],
                s0\<lparr>prevLoop := Some 11, NumLoops := 1, NumLoopsNoStores := 1,
                   LICMLoadHoist := 1\<rparr>)) \<and>
   LICM_loop hoistIfInvariant DT2 R5 (B19, s0) =
     Some (Inr ([(0, [Instr 1 (Other [Const 7]), Instr 2 (Term [])]),
                 (1, [Instr 3 (Term [])]),
                 (2, [Instr 8 (Load False (InstV 1)), Instr 4 (Term [])]),
                 (3, [Instr 6 (Term [])]),
                 (4, [Instr 7 (Term [])])],
                s0\<lparr>prevLoop := Some 10, NumLoops := 2, NumLoopsNoStores := 1,
                   LICMLoadHoist := 1\<rparr>))"
  by code_simp

section \<open>The hoisting engine: one pass over a loop\<close>

text \<open>
  Claim C1. A legal load is cloned, the clone is put right before the terminator of the
  preheader, the uses are redirected, the original is erased and \<^verbatim>\<open>LICMLoadHoist\<close> is
  incremented; and the pass is to return true when the hoisted load was still used inside
  the loop. The code does the hoist and misses the return value: it looks for a user
  after \<^verbatim>\<open>replaceAllUsesWith\<close> and \<^verbatim>\<open>eraseFromParent\<close>, when the original has no
  user left (\<open>hoistLoad_no_user\<close>). On the loop \<open>L1\<close> with the body \<open>B1\<close> the load of
  block 1 is legal and the store next to it, a member of the loop, uses it; the pass
  hoists the load and returns false.
\<close>

theorem mLICM_hoisted_load_used_in_loop:
  "isLoad (Instr 2 (Load False (Const 7))) \<and>
   canMoveOutOfLoop L1 (Instr 2 (Load False (Const 7))) DT1 B1 s0 = Inr (True, s0) \<and>
   userInLoop B1 L1 2 \<and>
   mLICM hoistIfInvariant L1 DT1 (B1, s0) =
     Inr (False,
          [(0, [Instr 5 (Load False (Const 7)), Instr 1 (Term [])]),
           (1, [Instr 3 (Store False (InstV 5) (Const 8)), Instr 4 (Term [])])],
          s0\<lparr>prevLoop := Some 10, NumLoopsNoStores := 1, LICMLoadHoist := 1\<rparr>)"
  by code_simp

text \<open>
  Claim C2. A child loop without a preheader that the driver hands to the engine is to
  be refused before anything is inserted. The driver tests the preheader of the root
  loop only, and \<^verbatim>\<open>mLICM\<close> calls \<^verbatim>\<open>getTerminator()\<close> on the preheader it gets
  without a test: for the root \<open>R3\<close>, whose child \<open>C3\<close> has no preheader and holds a
  legal load, the hoist goes through the null preheader.
\<close>

theorem LICM_loop_child_without_preheader:
  "getLoopPreheader R3 = Some 0 \<and> getSubLoops R3 = [C3] \<and> getLoopPreheader C3 = None \<and>
   canMoveOutOfLoop C3 (Instr 3 (Load False (Const 7))) DT1 B2 (s0\<lparr>NumLoops := 1\<rparr>) =
     Inr (True, s0\<lparr>NumLoops := 1\<rparr>) \<and>
   hoistLoad C3 (Instr 3 (Load False (Const 7))) B2 = Inl NullPreheader \<and>
   LICM_loop hoistIfInvariant DT1 R3 (B2, s0) = Some (Inl NullPreheader)"
  by code_simp

section \<open>The legality check\<close>

text \<open>
  Claim C3. For a load that is not volatile, in a loop without a call, whose address is a
  constant or an alloca: the check returns false if a store of the loop's blocks has
  exactly this address as its destination, or if the address is an alloca that is a member
  of the loop, that is, the block that holds the alloca is a block of the loop or of a
  loop nested in it (with the blocks of nested loops among the blocks of the loop: a
  block of the loop); it returns true in all other cases. It changes nothing but the flag
  \<^verbatim>\<open>hasAStore\<close>, which it never clears; when no store writes to the address, the
  flag is set exactly when it was set before or some store of the loop has a destination
  that is neither a constant nor an alloca, and such a store does not change the result.
\<close>

theorem canMoveOutOfLoop_static_address:
  assumes ld: "kind I = Load False addr"
    and nocall: "\<not> list_ex isCall (loopInsts B L)"
    and static: "isaConstant addr \<or> isaAllocaInst B addr"
  shows "\<exists>s'. canMoveOutOfLoop L I DT B s =
            Inr (\<not> (\<exists>st \<in> set (loopInsts B L). \<exists>vol v. kind st = Store vol v addr) \<and>
                 \<not> (\<exists>k. addr = InstV k \<and> isaAllocaInst B addr \<and>
                        (\<exists>C \<in> set (loopNest L). \<exists>b \<in> set (getBlocks C).
                            getParent B k = Some b)), s')
          \<and> s' = s\<lparr>hasAStore := hasAStore s'\<rparr>
          \<and> (hasAStore s \<longrightarrow> hasAStore s')
          \<and> (\<not> (\<exists>st \<in> set (loopInsts B L). \<exists>vol v. kind st = Store vol v addr) \<longrightarrow>
               hasAStore s' =
                 (hasAStore s \<or>
                  (\<exists>st \<in> set (loopInsts B L). \<exists>vol v p.
                      kind st = Store vol v p \<and> \<not> isaConstant p \<and> \<not> isaAllocaInst B p)))
          \<and> (wfLoop L \<longrightarrow>
               (\<forall>k. (\<exists>C \<in> set (loopNest L). \<exists>b \<in> set (getBlocks C). getParent B k = Some b) =
                    (\<exists>b \<in> set (getBlocks L). getParent B k = Some b)))"
proof -
  obtain c h where sc: "scanStores B addr (loopInsts B L) (hasAStore s) = (c, h)"
    by (cases "scanStores B addr (loopInsts B L) (hasAStore s)")
  have c: "c = (\<exists>st \<in> set (loopInsts B L). \<exists>vol v. kind st = Store vol v addr)"
    using scanStores_fst [of B addr "loopInsts B L" "hasAStore s"] sc by simp
  have hm: "hasAStore s \<longrightarrow> h"
    using scanStores_snd_mono [OF sc] by simp
  have hs: "\<not> c \<longrightarrow> h = (hasAStore s \<or>
                  (\<exists>st \<in> set (loopInsts B L). \<exists>vol v p.
                      kind st = Store vol v p \<and> \<not> isaConstant p \<and> \<not> isaAllocaInst B p))"
    using scanStores_snd [of B addr "loopInsts B L" "hasAStore s"] sc by simp
  have wf: "wfLoop L \<longrightarrow>
               (\<forall>k. (\<exists>C \<in> set (loopNest L). \<exists>b \<in> set (getBlocks C). getParent B k = Some b) =
                    (\<exists>b \<in> set (getBlocks L). getParent B k = Some b))"
    using nest_blocks_wf by blast
  have main: "\<exists>s'. canMoveOutOfLoop L I DT B s =
            Inr (\<not> (\<exists>st \<in> set (loopInsts B L). \<exists>vol v. kind st = Store vol v addr) \<and>
                 \<not> (\<exists>k. addr = InstV k \<and> isaAllocaInst B addr \<and>
                        (\<exists>C \<in> set (loopNest L). \<exists>b \<in> set (getBlocks C).
                            getParent B k = Some b)), s')
          \<and> s' = s\<lparr>hasAStore := hasAStore s'\<rparr>
          \<and> (hasAStore s \<longrightarrow> hasAStore s')
          \<and> (\<not> (\<exists>st \<in> set (loopInsts B L). \<exists>vol v. kind st = Store vol v addr) \<longrightarrow>
               hasAStore s' =
                 (hasAStore s \<or>
                  (\<exists>st \<in> set (loopInsts B L). \<exists>vol v p.
                      kind st = Store vol v p \<and> \<not> isaConstant p \<and> \<not> isaAllocaInst B p)))"
  proof (cases "isaAllocaInst B addr")
    case True
    then obtain k where k: "addr = InstV k" using isaAllocaInst_InstV by blast
    have m: "instrIsInLoop B L k =
        (\<exists>C \<in> set (loopNest L). \<exists>b \<in> set (getBlocks C). getParent B k = Some b)"
      by (rule instrIsInLoop_nest)
    show ?thesis
      using ld nocall True k sc c hm hs m
      by (cases c; cases "instrIsInLoop B L k")
         (simp_all add: canMoveOutOfLoop_def getOperand_Load isVolatile_Load castInstruction_def)
  next
    case False
    then show ?thesis
      using ld nocall static sc c hm hs
      by (cases c)
         (simp_all add: canMoveOutOfLoop_def getOperand_Load isVolatile_Load)
  qed
  with wf show ?thesis by blast
qed

text \<open>
  On \<open>L1\<close>: with the body \<open>B1\<close> the load of the global 7 is legal although the loop
  stores to the global 8; with \<open>B12\<close> the loop stores to the global 7 and the load is
  refused; with \<open>B13\<close> the loop stores through a computed pointer, the load is legal
  and the flag is set. In the body \<open>B4\<close> the load reads the alloca of block 2: the
  check refuses it for the loop \<open>C4\<close>, which has block 2, and accepts it for the loop
  \<open>G4\<close>, which has not.
\<close>

theorem canMoveOutOfLoop_static_address_witness:
  "kind (Instr 2 (Load False (Const 7))) = Load False (Const 7) \<and>
   \<not> list_ex isCall (loopInsts B1 L1) \<and> isaConstant (Const 7) \<and>
   list_ex isStore (loopInsts B1 L1) \<and>
   (\<exists>s'. canMoveOutOfLoop L1 (Instr 2 (Load False (Const 7))) DT1 B1 s0 = Inr (True, s') \<and>
         hasAStore s' = False) \<and>
   \<not> list_ex isCall (loopInsts B12 L1) \<and>
   (\<exists>s'. canMoveOutOfLoop L1 (Instr 2 (Load False (Const 7))) DT1 B12 s0 = Inr (False, s')) \<and>
   \<not> list_ex isCall (loopInsts B13 L1) \<and>
   (\<exists>s'. canMoveOutOfLoop L1 (Instr 3 (Load False (Const 7))) DT1 B13 s0 = Inr (True, s') \<and>
         hasAStore s' = True) \<and>
   kind (Instr 5 (Load False (InstV 3))) = Load False (InstV 3) \<and>
   isaAllocaInst B4 (InstV 3) \<and> getParent B4 3 = Some 2 \<and>
   \<not> list_ex isCall (loopInsts B4 C4) \<and> 2 \<in> set (getBlocks C4) \<and>
   instrIsInLoop B4 C4 3 \<and>
   (\<exists>s'. canMoveOutOfLoop C4 (Instr 5 (Load False (InstV 3))) DT1 B4 s0 = Inr (False, s')) \<and>
   \<not> list_ex isCall (loopInsts B4 G4) \<and> 2 \<notin> set (getBlocks G4) \<and>
   \<not> instrIsInLoop B4 G4 3 \<and>
   (\<exists>s'. canMoveOutOfLoop G4 (Instr 5 (Load False (InstV 3))) DT1 B4 s0 = Inr (True, s'))"
proof -
  have h1: "kind (Instr 2 (Load False (Const 7))) = Load False (Const 7)" by simp
  have h1b: "kind (Instr 3 (Load False (Const 7))) = Load False (Const 7)" by simp
  have h2: "\<not> list_ex isCall (loopInsts B1 L1)" by code_simp
  have h3: "isaConstant (Const 7)" by code_simp
  have h4: "list_ex isStore (loopInsts B1 L1)" by code_simp
  have insts: "loopInsts B1 L1 =
      [Instr 2 (Load False (Const 7)), Instr 3 (Store False (InstV 2) (Const 8)), Instr 4 (Term [])]"
    by code_simp
  have h5: "hasAStore s0 = False" by code_simp
  have h6: "isaConstant (Const 8)" by code_simp
  from canMoveOutOfLoop_static_address [OF h1 h2 disjI1 [OF h3], where DT = DT1 and s = s0]
  have w1: "\<exists>s'. canMoveOutOfLoop L1 (Instr 2 (Load False (Const 7))) DT1 B1 s0 = Inr (True, s') \<and>
         hasAStore s' = False"
    unfolding insts using h5 h6 by auto
  have g2: "\<not> list_ex isCall (loopInsts B12 L1)" by code_simp
  have insts12: "loopInsts B12 L1 =
      [Instr 2 (Load False (Const 7)), Instr 3 (Store False (InstV 2) (Const 7)), Instr 4 (Term [])]"
    by code_simp
  from canMoveOutOfLoop_static_address [OF h1 g2 disjI1 [OF h3], where DT = DT1 and s = s0]
  have w2: "\<exists>s'. canMoveOutOfLoop L1 (Instr 2 (Load False (Const 7))) DT1 B12 s0 = Inr (False, s')"
    unfolding insts12 by auto
  have g3: "\<not> list_ex isCall (loopInsts B13 L1)" by code_simp
  have insts13: "loopInsts B13 L1 =
      [Instr 3 (Load False (Const 7)), Instr 4 (Store False (InstV 3) (InstV 1)), Instr 5 (Term [])]"
    by code_simp
  have g3a: "\<not> isaConstant (InstV 1)" by code_simp
  have g3b: "\<not> isaAllocaInst B13 (InstV 1)" by code_simp
  from canMoveOutOfLoop_static_address [OF h1b g3 disjI1 [OF h3], where DT = DT1 and s = s0]
  have w3: "\<exists>s'. canMoveOutOfLoop L1 (Instr 3 (Load False (Const 7))) DT1 B13 s0 = Inr (True, s') \<and>
         hasAStore s' = True"
    unfolding insts13 using g3a g3b by auto
  have a1: "kind (Instr 5 (Load False (InstV 3))) = Load False (InstV 3)" by simp
  have a2: "isaAllocaInst B4 (InstV 3)" by code_simp
  have a3: "getParent B4 3 = Some 2" by code_simp
  have a4: "\<not> list_ex isCall (loopInsts B4 C4)" by code_simp
  have a5: "\<not> list_ex isCall (loopInsts B4 G4)" by code_simp
  have nC: "loopNest C4 = [C4, G4]" by code_simp
  have nG: "loopNest G4 = [G4]" by code_simp
  have bC: "getBlocks C4 = [2, 3, 4]" by code_simp
  have bG: "getBlocks G4 = [3]" by code_simp
  have iC: "loopInsts B4 C4 =
      [Instr 3 Alloca, Instr 4 (Term []), Instr 5 (Load False (InstV 3)),
       Instr 6 (Store False (InstV 5) (Const 8)), Instr 7 (Term []), Instr 8 (Term [])]"
    by code_simp
  have iG: "loopInsts B4 G4 =
      [Instr 5 (Load False (InstV 3)), Instr 6 (Store False (InstV 5) (Const 8)), Instr 7 (Term [])]"
    by code_simp
  from canMoveOutOfLoop_static_address [OF a1 a4 disjI2 [OF a2], where DT = DT1 and s = s0]
  have w4: "\<exists>s'. canMoveOutOfLoop C4 (Instr 5 (Load False (InstV 3))) DT1 B4 s0 = Inr (False, s')"
    unfolding iC nC using a2 a3 bC by auto
  from canMoveOutOfLoop_static_address [OF a1 a5 disjI2 [OF a2], where DT = DT1 and s = s0]
  have w5: "\<exists>s'. canMoveOutOfLoop G4 (Instr 5 (Load False (InstV 3))) DT1 B4 s0 = Inr (True, s')"
    unfolding iG nG using a2 a3 bG by auto
  have m1: "2 \<in> set (getBlocks C4)" using bC by simp
  have m2: "2 \<notin> set (getBlocks G4)" using bG by simp
  have n1: "instrIsInLoop B4 C4 3" by code_simp
  have n2: "\<not> instrIsInLoop B4 G4 3" by code_simp
  from h1 h2 h3 h4 w1 g2 w2 g3 w3 a1 a2 a3 a4 m1 n1 w4 a5 m2 n2 w5 show ?thesis by blast
qed






text \<open>
  Claim C5. The check returns false whenever the load is volatile, or some instruction of
  the loop's blocks is a call; with the blocks of nested loops among the blocks of the
  loop (\<open>wfLoop\<close>), a call in any loop of the nest counts. The engine then leaves the load
  where it is: the step of \<^verbatim>\<open>mLICM\<close> for this load changes neither the body nor
  \<^verbatim>\<open>mRetVal\<close>, \<^verbatim>\<open>isOpt\<close> or \<^verbatim>\<open>LICMLoadHoist\<close>.
\<close>

theorem canMoveOutOfLoop_volatile_or_call:
  assumes "isVolatile I \<or> list_ex isCall (loopInsts B L) \<or>
           (wfLoop L \<and> (\<exists>C \<in> set (loopNest L). list_ex isCall (loopInsts B C)))"
  shows "\<exists>s'. canMoveOutOfLoop L I DT B s = Inr (False, s') \<and>
              (isLoad I \<longrightarrow>
                 mLICM_inst prim L DT I (mRetVal, isOpt, B, s) = Inr (mRetVal, isOpt, B, s') \<and>
                 LICMLoadHoist s' = LICMLoadHoist s)"
proof -
  have "isVolatile I \<or> list_ex isCall (loopInsts B L)"
  proof -
    { assume wf: "wfLoop L" and ex: "\<exists>C \<in> set (loopNest L). list_ex isCall (loopInsts B C)"
      then obtain C where C: "C \<in> set (loopNest L)" "list_ex isCall (loopInsts B C)" by blast
      have "set (loopInsts B C) \<subseteq> set (loopInsts B L)"
        using wfLoop_nest_blocks [OF wf C(1)] by (rule loopInsts_mono)
      then have "list_ex isCall (loopInsts B L)" using C(2) by (rule list_ex_mono_set) }
    with assms show ?thesis by blast
  qed
  then obtain s' where s': "canMoveOutOfLoop L I DT B s = Inr (False, s')"
    using canMoveOutOfLoop_call canMoveOutOfLoop_vol by blast
  have "LICMLoadHoist s' = LICMLoadHoist s"
    using s' by (rule canMoveOutOfLoop_LoadHoist)
  with s' show ?thesis by (auto simp: mLICM_inst_def)
qed

text \<open>
  On the nest \<open>R2\<close> with the body \<open>B9\<close>: the load is in a block of the root only, the
  call in the block of the child, and the load stays.
\<close>

theorem canMoveOutOfLoop_volatile_or_call_witness:
  "wfLoop R2 \<and> C2 \<in> set (loopNest R2) \<and> list_ex isCall (loopInsts B9 C2) \<and>
   isLoad (Instr 2 (Load False (Const 7))) \<and>
   (\<exists>s'. canMoveOutOfLoop R2 (Instr 2 (Load False (Const 7))) DT1 B9 s0 = Inr (False, s') \<and>
         mLICM_inst hoistIfInvariant R2 DT1 (Instr 2 (Load False (Const 7))) (False, False, B9, s0)
           = Inr (False, False, B9, s') \<and>
         LICMLoadHoist s' = LICMLoadHoist s0)"
proof -
  have h1: "wfLoop R2" by code_simp
  have h2: "C2 \<in> set (loopNest R2)" by code_simp
  have h3: "list_ex isCall (loopInsts B9 C2)" by code_simp
  have h4: "isLoad (Instr 2 (Load False (Const 7)))" by code_simp
  have "isVolatile (Instr 2 (Load False (Const 7))) \<or> list_ex isCall (loopInsts B9 R2) \<or>
        (wfLoop R2 \<and> (\<exists>C \<in> set (loopNest R2). list_ex isCall (loopInsts B9 C)))"
    using h1 h2 h3 by blast
  from canMoveOutOfLoop_volatile_or_call
    [OF this, where DT = DT1 and s = s0 and prim = hoistIfInvariant and mRetVal = False
      and isOpt = False] h4
  have "\<exists>s'. canMoveOutOfLoop R2 (Instr 2 (Load False (Const 7))) DT1 B9 s0 = Inr (False, s') \<and>
         mLICM_inst hoistIfInvariant R2 DT1 (Instr 2 (Load False (Const 7))) (False, False, B9, s0)
           = Inr (False, False, B9, s') \<and>
         LICMLoadHoist s' = LICMLoadHoist s0"
    by blast
  with h1 h2 h3 h4 show ?thesis by blast
qed

section \<open>The statistics of a pass\<close>

text \<open>
  Claim C6. One pass of \<^verbatim>\<open>mLICM\<close> over a loop raises \<^verbatim>\<open>NumLoopsWithCall\<close> by at most
  one and \<^verbatim>\<open>NumLoopsNoStores\<close>, the counter fed by the store observation, by at most
  one, however many instructions it analyses; a pass that follows a pass over the same
  loop (the static still names the loop) raises neither, so the whole
  \<^verbatim>\<open>while(mLICM(...))\<close> of a loop raises each by at most one. The observation
  \<^verbatim>\<open>hasAStore\<close> is scoped to the pass: the value an earlier analysis left in the flag
  has no influence on the result, the body or the state a pass produces.
\<close>

theorem mLICM_statistics_once:
  "mLICM prim li mDT (B, s\<lparr>hasAStore := h\<rparr>) = mLICM prim li mDT (B, s) \<and>
   (mLICM prim li mDT (B, s) = Inr (r, B', s') \<longrightarrow>
      (NumLoopsWithCall s' = NumLoopsWithCall s \<or> NumLoopsWithCall s' = NumLoopsWithCall s + 1) \<and>
      (NumLoopsNoStores s' = NumLoopsNoStores s \<or> NumLoopsNoStores s' = NumLoopsNoStores s + 1) \<and>
      (prev s = Some (lid li) \<longrightarrow> NumLoopsWithCall s' = NumLoopsWithCall s) \<and>
      (prevLoop s = Some (lid li) \<longrightarrow> NumLoopsNoStores s' = NumLoopsNoStores s) \<and>
      (NumLoopsWithCall s' \<noteq> NumLoopsWithCall s \<longrightarrow> prev s' = Some (lid li)) \<and>
      prevLoop s' = Some (lid li)) \<and>
   (whileLICM prim li mDT (B, s) = Some (Inr (Bw, sw)) \<longrightarrow>
      (NumLoopsWithCall sw = NumLoopsWithCall s \<or> NumLoopsWithCall sw = NumLoopsWithCall s + 1) \<and>
      (NumLoopsNoStores sw = NumLoopsNoStores s \<or> NumLoopsNoStores sw = NumLoopsNoStores s + 1))"
proof (intro conjI impI)
  show "mLICM prim li mDT (B, s\<lparr>hasAStore := h\<rparr>) = mLICM prim li mDT (B, s)"
    by (simp add: mLICM_def)
next
  assume run: "mLICM prim li mDT (B, s) = Inr (r, B', s')"
  note one = mLICM_pass_statistics [OF run]
  from one show "NumLoopsWithCall s' = NumLoopsWithCall s \<or>
      NumLoopsWithCall s' = NumLoopsWithCall s + 1" by blast
  from one show "NumLoopsNoStores s' = NumLoopsNoStores s \<or>
      NumLoopsNoStores s' = NumLoopsNoStores s + 1" by blast
  from one show "NumLoopsWithCall s' = NumLoopsWithCall s" if "prev s = Some (lid li)"
    using that by blast
  from one show "NumLoopsNoStores s' = NumLoopsNoStores s" if "prevLoop s = Some (lid li)"
    using that by blast
  from one show "prev s' = Some (lid li)" if "NumLoopsWithCall s' \<noteq> NumLoopsWithCall s"
    using that by blast
  from one show "prevLoop s' = Some (lid li)" by blast
next
  assume run: "whileLICM prim li mDT (B, s) = Some (Inr (Bw, sw))"
  note all = whileLICM_statistics_once [OF run]
  from all show "NumLoopsWithCall sw = NumLoopsWithCall s \<or>
      NumLoopsWithCall sw = NumLoopsWithCall s + 1" by blast
  from all show "NumLoopsNoStores sw = NumLoopsNoStores s \<or>
      NumLoopsNoStores sw = NumLoopsNoStores s + 1" by blast
qed

text \<open>
  On \<open>L1\<close> with the body \<open>B8\<close>, two loads and a call: the check runs once for each
  load and the counter is one after the pass, with the flag set or cleared before it;
  a second pass leaves the counter at one, and so does the whole run of the loop.
\<close>

theorem mLICM_statistics_once_witness:
  "mLICM hoistIfInvariant L1 DT1 (B8, s0\<lparr>hasAStore := True\<rparr>) =
     Inr (False, B8, s0\<lparr>prev := Some 10, prevLoop := Some 10, NumLoopsWithCall := 1\<rparr>) \<and>
   mLICM hoistIfInvariant L1 DT1 (B8, s0) =
     Inr (False, B8, s0\<lparr>prev := Some 10, prevLoop := Some 10, NumLoopsWithCall := 1\<rparr>) \<and>
   mLICM hoistIfInvariant L1 DT1
       (B8, s0\<lparr>prev := Some 10, prevLoop := Some 10, NumLoopsWithCall := 1\<rparr>) =
     Inr (False, B8, s0\<lparr>prev := Some 10, prevLoop := Some 10, NumLoopsWithCall := 1\<rparr>) \<and>
   whileLICM hoistIfInvariant L1 DT1 (B8, s0) =
     Some (Inr (B8, s0\<lparr>prev := Some 10, prevLoop := Some 10, NumLoopsWithCall := 1\<rparr>))"
proof -
  have e3: "whileLICM hoistIfInvariant L1 DT1 (B8, s0) =
     Some (Inr (B8, s0\<lparr>prev := Some 10, prevLoop := Some 10, NumLoopsWithCall := 1\<rparr>))"
    by code_simp
  have e1: "mLICM hoistIfInvariant L1 DT1 (B8, s0) =
     Inr (False, B8, s0\<lparr>prev := Some 10, prevLoop := Some 10, NumLoopsWithCall := 1\<rparr>)"
    by code_simp
  have e2: "mLICM hoistIfInvariant L1 DT1
       (B8, s0\<lparr>prev := Some 10, prevLoop := Some 10, NumLoopsWithCall := 1\<rparr>) =
     Inr (False, B8, s0\<lparr>prev := Some 10, prevLoop := Some 10, NumLoopsWithCall := 1\<rparr>)"
    by code_simp
  from mLICM_statistics_once
    [where prim = hoistIfInvariant and li = L1 and mDT = DT1 and B = B8 and s = s0 and h = True] e1
  have "mLICM hoistIfInvariant L1 DT1 (B8, s0\<lparr>hasAStore := True\<rparr>) =
     Inr (False, B8, s0\<lparr>prev := Some 10, prevLoop := Some 10, NumLoopsWithCall := 1\<rparr>)"
    by simp
  with e1 e2 e3 show ?thesis by blast
qed

section \<open>The pass driver\<close>

text \<open>
  Claim C7. A root loop without a preheader is skipped: the driver increments
  \<^verbatim>\<open>LICMNoPreheader\<close> by one and leaves the body, the flag, the statics and every other
  counter as they were; neither the loop nor a loop nested in it is handed to the engine.
\<close>

theorem LICM_loop_no_preheader:
  assumes "getLoopPreheader li = None"
  shows "LICM_loop prim mDT li (B, s) =
           Some (Inr (B, s\<lparr>LICMNoPreheader := LICMNoPreheader s + 1\<rparr>))"
  using assms by (simp add: LICM_loop_def)

text \<open>
  The root \<open>R2n\<close> has no preheader; its child \<open>C2\<close> has one and holds a legal load, which
  stays where it is.
\<close>

theorem LICM_loop_no_preheader_witness:
  "getLoopPreheader R2n = None \<and> getSubLoops R2n = [C2] \<and>
   canMoveOutOfLoop C2 (Instr 3 (Load False (Const 7))) DT1 B2 s0 = Inr (True, s0) \<and>
   LICM_loop hoistIfInvariant DT1 R2n (B2, s0) = Some (Inr (B2, s0\<lparr>LICMNoPreheader := 1\<rparr>))"
proof -
  have h1: "getLoopPreheader R2n = None" by code_simp
  have h2: "getSubLoops R2n = [C2]" by code_simp
  have h3: "canMoveOutOfLoop C2 (Instr 3 (Load False (Const 7))) DT1 B2 s0 = Inr (True, s0)"
    by code_simp
  have h4: "LICMNoPreheader s0 = 0" by code_simp
  from LICM_loop_no_preheader
    [OF h1, where prim = hoistIfInvariant and mDT = DT1 and B = B2 and s = s0] h4
  have "LICM_loop hoistIfInvariant DT1 R2n (B2, s0) = Some (Inr (B2, s0\<lparr>LICMNoPreheader := 1\<rparr>))"
    by simp
  with h1 h2 h3 show ?thesis by blast
qed




section \<open>The statistics pass\<close>

text \<open>
  Claim C9. The statistics pass is to increment \<^verbatim>\<open>NumLoopsNoLoads\<close> once for every
  loop of the forest whose blocks hold no load, and so say the comment of its loop (line
  220, all the loops present in the function) and the description of the counter (line
  182). The code iterates the top-level loops only (\<open>numStats_counts_top_level_loops\<close>)
  and never descends into \<^verbatim>\<open>getSubLoops()\<close>, as the driver does for the same forest
  (lines 339-345). In \<open>module1\<close> two loops hold no load, the child \<open>C2\<close> of the first
  function, nested in the root \<open>R2\<close>, which has a load, and \<open>L5\<close>; the pass leaves
  the bodies of \<open>module1\<close> to a module in which this is still so, and the counter is
  one.
\<close>

theorem numStats_nested_loop_not_counted:
  "C2 \<in> set (loopNest R2) \<and> \<not> loopContainsLoad B9 C2 \<and> loopContainsLoad B9 R2 \<and>
   (\<Sum>f \<leftarrow> module1. if fblocks f = [] then 0
        else length (filter (\<lambda>li. \<not> loopContainsLoad (fblocks f) li)
                       (concat (map loopNest (floops f))))) = 2 \<and>
   NumLoopsNoLoads (numStats module1 s0) = 1 \<and>
   (case LoopInvariantCodeMotion hoistIfInvariant module1 s0 of
      Some (Inr (M1, s1)) \<Rightarrow>
        NumLoopsNoLoads s1 = 1 \<and>
        (\<Sum>f \<leftarrow> M1. if fblocks f = [] then 0
             else length (filter (\<lambda>li. \<not> loopContainsLoad (fblocks f) li)
                            (concat (map loopNest (floops f))))) = 2
    | _ \<Rightarrow> False)"
  by code_simp

section \<open>Where the legality check has no result\<close>




end
